theory Spec2Isabelle
  imports Main "HOL-Library.Multiset"
begin

section \<open>The crawler of Server/main.go\<close>

text \<open>
  The program is one Go file. A \<open>Crawler\<close> value is shared by goroutines that each run
  \<open>crawlPage\<close>; they synchronise through a mutex (the visited map), a buffered channel used
  as a counting semaphore, and a wait group. The embedding has three layers:
  \<^item> the helpers (\<open>isValidLink\<close>, \<open>extractLinks\<close>, \<open>savePage\<close>, \<open>NewCrawler\<close>) as HOL
    functions; what they change (the response body they read, the files they write) is
    passed in and returned;
  \<^item> what the program imports and does not define (net/url, x/net/html, path/filepath, the
    network and the disk) as the fields of two records, \<open>Library\<close> and \<open>World\<close>, that every
    function takes as parameters, so a theorem with a free \<open>L\<close> and \<open>W\<close> holds whatever
    these packages compute;
  \<^item> \<open>crawlPage\<close> as a transition function \<open>step\<close> on a global state: goroutine \<open>i\<close> performs
    its next action. An action is one statement of \<open>crawlPage\<close> with at most one operation
    on the mutex, the channel, the wait group or the visited map, so the mutex is locked
    and unlocked in actions of their own and the atomicity of the test-and-set is proved,
    not assumed. A run is a schedule, the list of goroutine indices in the order in which
    they act.

  The model takes the program's synchronisation to be sequentially consistent (every
  shared variable that is written is accessed under the mutex or is a synchronisation
  object), and a call of \<open>http.Get\<close> to return.
\<close>

subsection \<open>The functions of package strings that the program calls\<close>

definition HasPrefix :: "string \<Rightarrow> string \<Rightarrow> bool" where
  "HasPrefix s prefix = (take (length prefix) s = prefix)"

fun Contains :: "string \<Rightarrow> string \<Rightarrow> bool" where
  "Contains [] substr = (substr = [])"
| "Contains (c # s) substr = (HasPrefix (c # s) substr \<or> Contains s substr)"

text \<open>\<open>TrimRight s cutset\<close> removes every trailing byte of \<open>s\<close> that occurs in \<open>cutset\<close>.\<close>

definition TrimRight :: "string \<Rightarrow> string \<Rightarrow> string" where
  "TrimRight s cutset = rev (dropWhile (\<lambda>c. c \<in> set cutset) (rev s))"

text \<open>
  \<open>ReplaceAll s old new\<close> for a non-empty \<open>old\<close> (the program passes \<open>"/"\<close>): the
  non-overlapping occurrences of \<open>old\<close>, from the left, are replaced by \<open>new\<close>.
\<close>

function ReplaceAll :: "string \<Rightarrow> string \<Rightarrow> string \<Rightarrow> string" where
  "ReplaceAll s old new =
     (if s = [] \<or> old = [] then s
      else if HasPrefix s old then new @ ReplaceAll (drop (length old) s) old new
      else hd s # ReplaceAll (tl s) old new)"
  by pat_completeness auto
termination
  by (relation "measure (\<lambda>(s, old, new). length s)") auto

declare ReplaceAll.simps [simp del]

subsection \<open>Data the imported packages exchange with the program\<close>

text \<open>The exported fields of \<open>url.URL\<close> (user information and the raw forms left out).\<close>

record URL =
  Scheme :: string
  Opaque :: string
  Host :: string
  Path :: string
  OmitHost :: bool
  ForceQuery :: bool
  RawQuery :: string
  Fragment :: string

text \<open>\<open>html.Node\<close>: the first-child/next-sibling chain of a node is its list of children.\<close>

datatype NodeType = ErrorNode | TextNode | DocumentNode | ElementNode | CommentNode | DoctypeNode

datatype Attribute = Attribute (Key: string) (Val: string)

datatype Node = Node (Type: NodeType) (Data: string) (Attr: "Attribute list") (Children: "Node list")

text \<open>
  A response body is a stream that is read once: \<open>unread\<close> are the bytes not yet
  consumed, and \<open>broken\<close> says that the stream ends in a read error instead of end of file.
\<close>

datatype Body = Body (unread: string) (broken: bool)

datatype error = ParseError | MakeChanPanic | ReadError | WriteError

text \<open>
  \<open>io.ReadAll\<close> consumes the stream to its end: it returns the bytes, or the read error,
  and leaves nothing to read.
\<close>

definition io_ReadAll :: "Body \<Rightarrow> string option \<times> Body" where
  "io_ReadAll b = (if broken b then None else Some (unread b), Body [] (broken b))"

text \<open>
  The imported functions. \<open>None\<close> is a non-nil \<open>err\<close>. \<open>map_range\<close> is the order in which
  a \<open>range\<close> loop visits the keys of a map (unspecified in Go), given the keys in the order
  of their insertion.
\<close>

record Library =
  url_Parse :: "string \<Rightarrow> URL option"
  url_String :: "URL \<Rightarrow> string"
  url_Hostname :: "URL \<Rightarrow> string"
  url_ResolveReference :: "URL \<Rightarrow> URL \<Rightarrow> URL"
  html_Parse :: "string \<Rightarrow> Node option"
  filepath_Join :: "string list \<Rightarrow> string"
  map_range :: "string list \<Rightarrow> string list"

text \<open>
  The environment of a run: what the network answers to a GET of a URL (\<open>None\<close>: the
  request fails), and the file names that cannot be written.
\<close>

record World =
  transport :: "string \<Rightarrow> Body option"
  write_fails :: "string \<Rightarrow> bool"

text \<open>\<open>html.Parse\<close> reads its reader to the end; it fails only when the reader does.\<close>

definition html_Parse_reader :: "Library \<Rightarrow> Body \<Rightarrow> Node option" where
  "html_Parse_reader L body = (if broken body then None else html_Parse L (unread body))"

text \<open>
  \<open>http.Get\<close> builds its request with \<open>url.Parse\<close> and fails when that fails; otherwise
  the network decides.
\<close>

definition http_Get :: "Library \<Rightarrow> World \<Rightarrow> string \<Rightarrow> Body option" where
  "http_Get L W pageURL =
     (case url_Parse L pageURL of None \<Rightarrow> None | Some u \<Rightarrow> transport W pageURL)"

subsection \<open>The Crawler struct and NewCrawler\<close>

text \<open>A buffered channel of \<open>struct{}\<close> is its capacity and the number of queued elements.\<close>

record Chan =
  chan_cap :: nat
  chan_len :: nat

record Crawler =
  baseURL :: URL
  visited :: "string \<rightharpoonup> bool"
  visitedMutex :: bool
  maxDepth :: int
  outputDirectory :: string
  wg :: int
  concurrencyChan :: Chan

text \<open>
  \<open>make(chan struct{}, n)\<close> panics for a negative \<open>n\<close>. The directory that
  \<open>os.MkdirAll\<close> creates is not part of the state: the model keeps the files only.
\<close>

definition NewCrawler :: "Library \<Rightarrow> string \<Rightarrow> int \<Rightarrow> int \<Rightarrow> error + Crawler" where
  "NewCrawler L baseURLStr depthLimit maxConcurrency =
     (case url_Parse L baseURLStr of
        None \<Rightarrow> Inl ParseError
      | Some parsedURL \<Rightarrow>
          let outputDir = filepath_Join L [''crawl_output'', url_Hostname L parsedURL]
          in if maxConcurrency < 0 then Inl MakeChanPanic
             else Inr \<lparr>baseURL = parsedURL, visited = Map.empty, visitedMutex = False,
                       maxDepth = depthLimit, outputDirectory = outputDir, wg = 0,
                       concurrencyChan = \<lparr>chan_cap = nat maxConcurrency, chan_len = 0\<rparr>\<rparr>)"

subsection \<open>isValidLink\<close>

definition isValidLink :: "Library \<Rightarrow> Crawler \<Rightarrow> string \<Rightarrow> bool" where
  "isValidLink L c linkURL =
     (case url_Parse L linkURL of
        None \<Rightarrow> False
      | Some parsedLink \<Rightarrow>
          url_Hostname L parsedLink = url_Hostname L (baseURL c) \<and>
          \<not> Contains (Path parsedLink) ''@'' \<and>
          HasPrefix (Scheme parsedLink) ''http'')"

subsection \<open>extractLinks\<close>

text \<open>
  \<open>links\<close> is a \<open>map[string]bool\<close> that only ever stores \<open>true\<close>: the model keeps its keys,
  in the order of their first insertion.
\<close>

definition map_put :: "string list \<Rightarrow> string \<Rightarrow> string list" where
  "map_put links k = (if k \<in> set links then links else links @ [k])"

text \<open>
  The loop over \<open>n.Attr\<close>: it stops at the first attribute whose key is \<open>href\<close>, whether or
  not its value parses. The reference is resolved against \<open>c.baseURL\<close>.
\<close>

fun extract_attrs :: "Library \<Rightarrow> Crawler \<Rightarrow> Attribute list \<Rightarrow> string list \<Rightarrow> string list" where
  "extract_attrs L c [] links = links"
| "extract_attrs L c (attr # rest) links =
     (if Key attr = ''href'' then
        (case url_Parse L (Val attr) of
           None \<Rightarrow> links
         | Some link \<Rightarrow>
             let absoluteURL = url_ResolveReference L (baseURL c) link;
                 fullURL = url_String L absoluteURL;
                 fullURL = TrimRight fullURL ''/''
             in map_put links fullURL)
      else extract_attrs L c rest links)"

text \<open>The closure \<open>extract\<close>: a node, then its children from first to last.\<close>

fun extract_node :: "Library \<Rightarrow> Crawler \<Rightarrow> Node \<Rightarrow> string list \<Rightarrow> string list" where
  "extract_node L c (Node ty data attrs kids) links =
     fold (extract_node L c) kids
       (if ty = ElementNode \<and> data = ''a'' then extract_attrs L c attrs links else links)"

text \<open>The second parameter, \<open>baseURL\<close>, is the URL of the page; the body never reads it.\<close>

definition extractLinks :: "Library \<Rightarrow> Crawler \<Rightarrow> Body \<Rightarrow> string \<Rightarrow> string list" where
  "extractLinks L c body baseURLStr =
     (case html_Parse_reader L body of
        None \<Rightarrow> []
      | Some doc \<Rightarrow> map_range L (extract_node L c doc []))"

subsection \<open>savePage\<close>

text \<open>
  The result is the returned error, the response body as \<open>savePage\<close> leaves it, and the
  files. A write that fails leaves the files as they were.
\<close>

definition filename_of :: "string \<Rightarrow> string" where
  "filename_of path =
     (let filename = ReplaceAll path ''/'' ''_''
      in if filename = [] \<or> filename = ''_'' then ''index'' else filename)"

definition savePage ::
  "Library \<Rightarrow> World \<Rightarrow> Crawler \<Rightarrow> string \<Rightarrow> Body \<Rightarrow> (string \<rightharpoonup> string) \<Rightarrow>
     error option \<times> Body \<times> (string \<rightharpoonup> string)" where
  "savePage L W c pageURL respBody fs =
     (case url_Parse L pageURL of
        None \<Rightarrow> (Some ParseError, respBody, fs)
      | Some parsedURL \<Rightarrow>
          let filename = filepath_Join L [outputDirectory c, filename_of (Path parsedURL) @ ''.html''];
              (body, respBody') = io_ReadAll respBody
          in (case body of
                None \<Rightarrow> (Some ReadError, respBody', fs)
              | Some bytes \<Rightarrow>
                  if write_fails W filename then (Some WriteError, respBody', fs)
                  else (None, respBody', fs(filename \<mapsto> bytes))))"

subsection \<open>crawlPage, one goroutine among many\<close>

text \<open>
  The program counter of a goroutine running \<open>crawlPage\<close> names the statement it executes
  next:
  \<^item> \<open>Start\<close>: the test of the depth (line 60);
  \<^item> \<open>Lock\<close>, \<open>Check\<close>, \<open>Insert\<close>: \<open>visitedMutex.Lock\<close>, the test of \<open>c.visited[pageURL]\<close> and
    the assignment to it (lines 64, 65, 69);
  \<^item> \<open>UnlockSkip\<close>, \<open>UnlockOk\<close>: \<open>Unlock\<close> before the \<open>return\<close> of line 67, and on line 70;
  \<^item> \<open>Acquire\<close>: the send on \<open>concurrencyChan\<close> (line 73), which blocks while the channel is
    full;
  \<^item> \<open>Fetch\<close>: \<open>http.Get\<close> (line 77); \<open>Save\<close>: \<open>savePage\<close> (line 85); \<open>Extract\<close>:
    \<open>extractLinks\<close> (line 90); both carry the response body;
  \<^item> \<open>Spawn\<close>: the loop over the links still to visit (lines 93 to 99);
  \<^item> \<open>Release\<close>, \<open>WgDone\<close>: the deferred calls, which run at every \<open>return\<close>, last registered
    first: the receive from \<open>concurrencyChan\<close> when it was registered, then \<open>wg.Done\<close>;
  \<^item> \<open>Exited\<close>: the goroutine has returned.

  \<open>resp.Body.Close\<close> changes nothing that the model keeps.
\<close>

datatype PC =
    Start
  | Lock
  | Check
  | Insert
  | UnlockSkip
  | UnlockOk
  | Acquire
  | Fetch
  | Save Body
  | Extract Body
  | Spawn "string list"
  | Release
  | WgDone
  | Exited

record Task =
  pageURL :: string
  depth :: int
  pc :: PC

text \<open>The two lines that \<open>crawlPage\<close> prints.\<close>

datatype report = ErrorFetching string | ErrorSaving string error

text \<open>
  The state of a run: the shared \<open>Crawler\<close>, the goroutines in the order of their
  \<open>go\<close> statements, the files written, the lines printed, and two histories that the
  program does not keep: the calls of \<open>http.Get\<close> (URL and depth of the caller) and the
  outcomes of the test of \<open>c.visited[pageURL]\<close> (\<open>True\<close>: the URL was absent and the caller
  goes on to crawl it).
\<close>

record State =
  crawler :: Crawler
  tasks :: "Task list"
  files :: "string \<rightharpoonup> string"
  printed :: "report list"
  fetched :: "(string \<times> int) list"
  claims :: "(string \<times> bool) list"

definition goto :: "State \<Rightarrow> nat \<Rightarrow> PC \<Rightarrow> State" where
  "goto s i p = s\<lparr>tasks := (tasks s)[i := (tasks s ! i)\<lparr>pc := p\<rparr>]\<rparr>"

text \<open>
  \<open>step L W s i\<close>: goroutine \<open>i\<close> executes its next statement; \<open>None\<close> when it cannot (there
  is no such goroutine, it has returned, or it is blocked on the mutex or on the channel).
\<close>

definition step :: "Library \<Rightarrow> World \<Rightarrow> State \<Rightarrow> nat \<Rightarrow> State option" where
  "step L W s i =
     (if length (tasks s) \<le> i then None
      else
        let t = tasks s ! i; c = crawler s; ch = concurrencyChan c in
        case pc t of
          Start \<Rightarrow> Some (goto s i (if depth t > maxDepth c then WgDone else Lock))
        | Lock \<Rightarrow>
            if visitedMutex c then None
            else Some ((goto s i Check)\<lparr>crawler := c\<lparr>visitedMutex := True\<rparr>\<rparr>)
        | Check \<Rightarrow>
            if visited c (pageURL t) = Some True
            then Some ((goto s i UnlockSkip)\<lparr>claims := claims s @ [(pageURL t, False)]\<rparr>)
            else Some ((goto s i Insert)\<lparr>claims := claims s @ [(pageURL t, True)]\<rparr>)
        | Insert \<Rightarrow>
            Some ((goto s i UnlockOk)\<lparr>crawler := c\<lparr>visited := (visited c)(pageURL t \<mapsto> True)\<rparr>\<rparr>)
        | UnlockSkip \<Rightarrow> Some ((goto s i WgDone)\<lparr>crawler := c\<lparr>visitedMutex := False\<rparr>\<rparr>)
        | UnlockOk \<Rightarrow> Some ((goto s i Acquire)\<lparr>crawler := c\<lparr>visitedMutex := False\<rparr>\<rparr>)
        | Acquire \<Rightarrow>
            if chan_len ch < chan_cap ch
            then Some ((goto s i Fetch)
                         \<lparr>crawler := c\<lparr>concurrencyChan := ch\<lparr>chan_len := chan_len ch + 1\<rparr>\<rparr>\<rparr>)
            else None
        | Fetch \<Rightarrow>
            (case http_Get L W (pageURL t) of
               None \<Rightarrow>
                 Some ((goto s i Release)
                         \<lparr>printed := printed s @ [ErrorFetching (pageURL t)],
                          fetched := fetched s @ [(pageURL t, depth t)]\<rparr>)
             | Some body \<Rightarrow>
                 Some ((goto s i (Save body))\<lparr>fetched := fetched s @ [(pageURL t, depth t)]\<rparr>))
        | Save body \<Rightarrow>
            (case savePage L W c (pageURL t) body (files s) of
               (err, body', fs) \<Rightarrow>
                 Some ((goto s i (Extract body'))
                         \<lparr>files := fs,
                          printed := (case err of
                                        None \<Rightarrow> printed s
                                      | Some e \<Rightarrow> printed s @ [ErrorSaving (pageURL t) e])\<rparr>))
        | Extract body \<Rightarrow> Some (goto s i (Spawn (extractLinks L c body (pageURL t))))
        | Spawn [] \<Rightarrow> Some (goto s i Release)
        | Spawn (link # links) \<Rightarrow>
            if isValidLink L c link
            then Some (s\<lparr>crawler := c\<lparr>wg := wg c + 1\<rparr>,
                         tasks := (tasks s)[i := t\<lparr>pc := Spawn links\<rparr>]
                                    @ [\<lparr>pageURL = link, depth = depth t + 1, pc = Start\<rparr>]\<rparr>)
            else Some (goto s i (Spawn links))
        | Release \<Rightarrow>
            if 0 < chan_len ch
            then Some ((goto s i WgDone)
                         \<lparr>crawler := c\<lparr>concurrencyChan := ch\<lparr>chan_len := chan_len ch - 1\<rparr>\<rparr>\<rparr>)
            else None
        | WgDone \<Rightarrow> Some ((goto s i Exited)\<lparr>crawler := c\<lparr>wg := wg c - 1\<rparr>\<rparr>)
        | Exited \<Rightarrow> None)"

subsection \<open>Crawl\<close>

text \<open>
  \<open>Crawl\<close> adds one to the wait group, starts \<open>crawlPage\<close> on the string form of the seed
  at depth 0, and waits. \<open>Crawl_init\<close> is the state when it starts to wait; \<open>Wait\<close> returns in
  a state whose counter is zero.
\<close>

definition Crawl_init :: "Library \<Rightarrow> Crawler \<Rightarrow> State" where
  "Crawl_init L c =
     \<lparr>crawler = c\<lparr>wg := wg c + 1\<rparr>,
      tasks = [\<lparr>pageURL = url_String L (baseURL c), depth = 0, pc = Start\<rparr>],
      files = Map.empty, printed = [], fetched = [], claims = []\<rparr>"

text \<open>
  A schedule names, action by action, the goroutine that acts; naming one that cannot act
  changes nothing. The states of the runs of a crawler are the \<open>run L W sched (Crawl_init L c)\<close>
  over all schedules.
\<close>

definition sched_step :: "Library \<Rightarrow> World \<Rightarrow> nat \<Rightarrow> State \<Rightarrow> State" where
  "sched_step L W i s = (case step L W s i of None \<Rightarrow> s | Some s' \<Rightarrow> s')"

definition run :: "Library \<Rightarrow> World \<Rightarrow> nat list \<Rightarrow> State \<Rightarrow> State" where
  "run L W sched s = fold (sched_step L W) sched s"

text \<open>The goroutines that can act in a state; when there is none the run is over or stuck.\<close>

definition enabled :: "Library \<Rightarrow> World \<Rightarrow> State \<Rightarrow> nat list" where
  "enabled L W s = filter (\<lambda>i. step L W s i \<noteq> None) [0..<length (tasks s)]"

text \<open>
  One particular scheduler, for running the model: the first goroutine that can act, acts.
  The result is \<open>None\<close> when \<open>n\<close> actions do not bring the run to its end.
\<close>

fun Crawl_first :: "Library \<Rightarrow> World \<Rightarrow> nat \<Rightarrow> State \<Rightarrow> State option" where
  "Crawl_first L W 0 s = (if enabled L W s = [] then Some s else None)"
| "Crawl_first L W (Suc n) s =
     (case enabled L W s of [] \<Rightarrow> Some s | i # _ \<Rightarrow> Crawl_first L W n (sched_step L W i s))"

subsection \<open>An instance of the imported packages\<close>

text \<open>
  To run the model, the imported functions need values. \<open>go_lib\<close> follows net/url and
  path/filepath on plain references: it has no percent-escapes, no user information, no
  check of the host's syntax and no control characters, and agrees with the Go packages on
  the strings evaluated below. Its HTML parser is a table of documents.
\<close>

definition letters :: string where
  "letters = ''abcdefghijklmnopqrstuvwxyzABCDEFGHIJKLMNOPQRSTUVWXYZ''"

definition digits :: string where
  "digits = ''0123456789''"

definition ToLower :: "string \<Rightarrow> string" where
  "ToLower s =
     map (\<lambda>c. case map_of (zip ''ABCDEFGHIJKLMNOPQRSTUVWXYZ'' ''abcdefghijklmnopqrstuvwxyz'') c of
                 None \<Rightarrow> c | Some l \<Rightarrow> l) s"

text \<open>\<open>Cut s sep\<close> for a one-byte separator: the text before its first occurrence, and after.\<close>

definition Cut :: "string \<Rightarrow> char \<Rightarrow> string \<times> string" where
  "Cut s sep = (takeWhile (\<lambda>c. c \<noteq> sep) s, drop 1 (dropWhile (\<lambda>c. c \<noteq> sep) s))"

fun split_on :: "char \<Rightarrow> string \<Rightarrow> string list" where
  "split_on sep [] = [[]]"
| "split_on sep (c # s) =
     (if c = sep then [] # split_on sep s
      else (case split_on sep s of [] \<Rightarrow> [[c]] | x # xs \<Rightarrow> (c # x) # xs))"

fun join_with :: "string \<Rightarrow> string list \<Rightarrow> string" where
  "join_with sep [] = []"
| "join_with sep [x] = x"
| "join_with sep (x # y # ys) = x @ sep @ join_with sep (y # ys)"

text \<open>\<open>getScheme\<close>: \<open>None\<close> is the error "missing protocol scheme".\<close>

definition getScheme :: "string \<Rightarrow> (string \<times> string) option" where
  "getScheme rawURL =
     (case rawURL of
        [] \<Rightarrow> Some ([], rawURL)
      | c # _ \<Rightarrow>
          if c = CHR '':'' then None
          else if c \<notin> set letters then Some ([], rawURL)
          else
            let scheme = takeWhile (\<lambda>c. c \<in> set letters \<or> c \<in> set digits \<or> c \<in> set ''+-.'') rawURL;
                rest = drop (length scheme) rawURL
            in if HasPrefix rest '':'' then Some (scheme, drop 1 rest) else Some ([], rawURL))"

definition go_Parse :: "string \<Rightarrow> URL option" where
  "go_Parse rawURL =
     (let (u, frag) = Cut rawURL (CHR ''#'') in
      if u = ''*'' then
        Some \<lparr>Scheme = [], Opaque = [], Host = [], Path = ''*'', OmitHost = False,
              ForceQuery = False, RawQuery = [], Fragment = frag\<rparr>
      else
        case getScheme u of
          None \<Rightarrow> None
        | Some (scheme, rest0) \<Rightarrow>
            let force = (rest0 \<noteq> [] \<and> last rest0 = CHR ''?'' \<and> count_list rest0 (CHR ''?'') = 1);
                (rest, query) = (if force then (butlast rest0, []) else Cut rest0 (CHR ''?''));
                url = \<lparr>Scheme = ToLower scheme, Opaque = [], Host = [], Path = [], OmitHost = False,
                       ForceQuery = force, RawQuery = query, Fragment = frag\<rparr>
            in
              if \<not> HasPrefix rest ''/'' \<and> scheme \<noteq> [] then Some (url\<lparr>Opaque := rest\<rparr>)
              else if \<not> HasPrefix rest ''/'' \<and> CHR '':'' \<in> set (fst (Cut rest (CHR ''/''))) then None
              else if (scheme \<noteq> [] \<or> \<not> HasPrefix rest ''///'') \<and> HasPrefix rest ''//'' then
                let authority = takeWhile (\<lambda>c. c \<noteq> CHR ''/'') (drop 2 rest);
                    path = dropWhile (\<lambda>c. c \<noteq> CHR ''/'') (drop 2 rest)
                in Some (url\<lparr>Host := authority, Path := path\<rparr>)
              else if scheme \<noteq> [] \<and> HasPrefix rest ''/'' then Some (url\<lparr>OmitHost := True, Path := rest\<rparr>)
              else Some (url\<lparr>Path := rest\<rparr>))"

definition go_String :: "URL \<Rightarrow> string" where
  "go_String u =
     (let buf = (if Scheme u \<noteq> [] then Scheme u @ '':'' else []);
          buf =
            (if Opaque u \<noteq> [] then buf @ Opaque u
             else
               let buf =
                     (if (Scheme u \<noteq> [] \<or> Host u \<noteq> []) \<and> \<not> (OmitHost u \<and> Host u = [])
                      then buf @ (if Host u \<noteq> [] \<or> Path u \<noteq> [] then ''//'' else []) @ Host u
                      else buf);
                   buf = (if Path u \<noteq> [] \<and> hd (Path u) \<noteq> CHR ''/'' \<and> Host u \<noteq> [] then buf @ ''/'' else buf);
                   buf = (if buf = [] \<and> CHR '':'' \<in> set (fst (Cut (Path u) (CHR ''/''))) then ''./'' else buf)
               in buf @ Path u);
          buf = (if ForceQuery u \<or> RawQuery u \<noteq> [] then buf @ ''?'' @ RawQuery u else buf)
      in if Fragment u \<noteq> [] then buf @ ''#'' @ Fragment u else buf)"

text \<open>\<open>Hostname\<close>: the host without a valid port and without the brackets of an IPv6 literal.\<close>

definition go_Hostname :: "URL \<Rightarrow> string" where
  "go_Hostname u =
     (let hostPort = Host u;
          port = rev (takeWhile (\<lambda>c. c \<noteq> CHR '':'') (rev hostPort));
          host = (if CHR '':'' \<in> set hostPort \<and> set port \<subseteq> set digits
                  then take (length hostPort - length port - 1) hostPort else hostPort)
      in if HasPrefix host ''['' \<and> host \<noteq> [] \<and> last host = CHR '']''
         then butlast (drop 1 host) else host)"

text \<open>
  \<open>resolvePath\<close>: the loop over the segments of the merged path keeps the output written
  so far and the flag \<open>first\<close>.
\<close>

definition resolve_elem :: "string \<times> bool \<Rightarrow> string \<Rightarrow> string \<times> bool" where
  "resolve_elem st elem =
     (case st of (dst, first) \<Rightarrow>
        if elem = ''.'' then (dst, False)
        else if elem = ''..'' then
          (let str = drop 1 dst in
           if CHR ''/'' \<in> set str
           then (''/'' @ rev (drop 1 (dropWhile (\<lambda>c. c \<noteq> CHR ''/'') (rev str))), first)
           else (''/'', True))
        else ((if first then dst else dst @ ''/'') @ elem, False))"

definition resolvePath :: "string \<Rightarrow> string \<Rightarrow> string" where
  "resolvePath base ref =
     (let full = (if ref = [] then base
                  else if hd ref \<noteq> CHR ''/''
                  then rev (dropWhile (\<lambda>c. c \<noteq> CHR ''/'') (rev base)) @ ref
                  else ref)
      in if full = [] then []
         else
           let elems = split_on (CHR ''/'') full;
               dst = fst (foldl resolve_elem (''/'', True) elems);
               r = (if last elems = ''.'' \<or> last elems = ''..'' then dst @ ''/'' else dst)
           in if 1 < length r \<and> r ! 1 = CHR ''/'' then drop 1 r else r)"

definition go_ResolveReference :: "URL \<Rightarrow> URL \<Rightarrow> URL" where
  "go_ResolveReference u ref =
     (let url = (if Scheme ref = [] then ref\<lparr>Scheme := Scheme u\<rparr> else ref) in
      if Scheme ref \<noteq> [] \<or> Host ref \<noteq> [] then url\<lparr>Path := resolvePath (Path ref) []\<rparr>
      else if Opaque ref \<noteq> [] then url\<lparr>Host := [], Path := []\<rparr>
      else
        let url = (if Path ref = [] \<and> \<not> ForceQuery ref \<and> RawQuery ref = []
                   then url\<lparr>RawQuery := RawQuery u,
                            Fragment := (if Fragment ref = [] then Fragment u else Fragment ref)\<rparr>
                   else url)
        in if Path ref = [] \<and> Opaque u \<noteq> [] then url\<lparr>Opaque := Opaque u, Host := [], Path := []\<rparr>
           else url\<lparr>Host := Host u, Path := resolvePath (Path u) (Path ref)\<rparr>)"

text \<open>\<open>filepath.Join\<close>: the non-empty elements joined by the separator, then \<open>Clean\<close>.\<close>

definition clean_elem :: "bool \<Rightarrow> string list \<Rightarrow> string \<Rightarrow> string list" where
  "clean_elem rooted out elem =
     (if elem = [] \<or> elem = ''.'' then out
      else if elem = ''..'' then
        (if out \<noteq> [] \<and> last out \<noteq> ''..'' then butlast out
         else if rooted then out else out @ [elem])
      else out @ [elem])"

definition Clean :: "string \<Rightarrow> string" where
  "Clean path =
     (let rooted = HasPrefix path ''/'';
          out = foldl (clean_elem rooted) [] (split_on (CHR ''/'') path);
          r = (if rooted then ''/'' else []) @ join_with ''/'' out
      in if r = [] then ''.'' else r)"

definition go_Join :: "string list \<Rightarrow> string" where
  "go_Join elems =
     (let es = filter (\<lambda>e. e \<noteq> []) elems in if es = [] then [] else Clean (join_with ''/'' es))"

text \<open>
  The trees that \<open>html.Parse\<close> builds for three documents: the empty one, one anchor with a
  relative reference, one anchor that refers to the root.
\<close>

definition html_doc :: "Node list \<Rightarrow> Node" where
  "html_doc body =
     Node DocumentNode [] []
       [Node ElementNode ''html'' []
          [Node ElementNode ''head'' [] [], Node ElementNode ''body'' [] body]]"

definition html_table :: "(string \<times> Node) list" where
  \<open>html_table =
     [([], html_doc []),
      (''<a href="next">n</a>'',
         html_doc [Node ElementNode ''a'' [Attribute ''href'' ''next''] [Node TextNode ''n'' [] []]]),
      (''<a href="/">home</a>'',
         html_doc [Node ElementNode ''a'' [Attribute ''href'' ''/''] [Node TextNode ''home'' [] []]])]\<close>

definition go_lib :: Library where
  "go_lib =
     \<lparr>url_Parse = go_Parse, url_String = go_String, url_Hostname = go_Hostname,
      url_ResolveReference = go_ResolveReference, html_Parse = map_of html_table,
      filepath_Join = go_Join, map_range = (\<lambda>keys. keys)\<rparr>"

subsection \<open>Libraries and worlds to run the model in\<close>

text \<open>A world without network in which every file can be written.\<close>

definition disk_ok :: World where
  "disk_ok = \<lparr>transport = (\<lambda>u. None), write_fails = (\<lambda>f. False)\<rparr>"

text \<open>
  A world in which \<open>https://site.com/\<close> and \<open>https://site.com\<close> both answer with the same
  page, one anchor that refers to the root, and every other request fails.
\<close>

definition site_web :: World where
  \<open>site_web =
     \<lparr>transport = map_of
        [(''https://site.com/'', Body ''<a href="/">home</a>'' False),
         (''https://site.com'', Body ''<a href="/">home</a>'' False)],
      write_fails = (\<lambda>f. False)\<rparr>\<close>

text \<open>What \<open>NewCrawler\<close> returns for the seed \<open>https://site.com/\<close> under \<open>go_lib\<close>.\<close>

definition site_crawler :: "int \<Rightarrow> nat \<Rightarrow> Crawler" where
  "site_crawler md n =
     \<lparr>baseURL = \<lparr>Scheme = ''https'', Opaque = [], Host = ''site.com'', Path = ''/'',
                 OmitHost = False, ForceQuery = False, RawQuery = [], Fragment = []\<rparr>,
      visited = Map.empty, visitedMutex = False, maxDepth = md,
      outputDirectory = ''crawl_output/site.com'', wg = 0,
      concurrencyChan = \<lparr>chan_cap = n, chan_len = 0\<rparr>\<rparr>"

text \<open>
  Under \<open>go_lib\<close> a run never has a second goroutine, since \<open>extractLinks\<close> is handed a body
  that \<open>savePage\<close> has read to its end. The theorems below hold for every library; to run
  them on states with several goroutines, \<open>fanout_lib\<close> is \<open>go_lib\<close> with a parser that
  finds the anchors \<open>/a\<close> and \<open>/\<close> in whatever it is given.
\<close>

definition fanout_lib :: Library where
  "fanout_lib =
     go_lib\<lparr>html_Parse := (\<lambda>b. Some (html_doc
        [Node ElementNode ''a'' [Attribute ''href'' ''/a''] [],
         Node ElementNode ''a'' [Attribute ''href'' ''/''] []]))\<rparr>"

text \<open>
  Two schedules: the goroutines \<open>0, \<dots>, n - 1\<close> one after the other, each to its end
  (a goroutine returns within 16 actions when it is not blocked); and the state in which the
  seed's goroutine has returned and its first child is inside \<open>http.Get\<close>.
\<close>

definition each_in_turn :: "nat \<Rightarrow> nat list" where
  "each_in_turn n = concat (map (replicate 16) [0..<n])"

definition first_child_fetching :: State where
  "first_child_fetching =
     run fanout_lib site_web (replicate 16 0 @ replicate 6 1) (Crawl_init fanout_lib (site_crawler 2 3))"

subsection \<open>Where a goroutine is\<close>

text \<open>
  A goroutine is \<open>running\<close> until its \<open>wg.Done\<close>; it holds a permit from its send on
  \<open>concurrencyChan\<close> (line 73) to the deferred receive; it is in the critical section from
  \<open>Lock\<close> to \<open>Unlock\<close>; it is past the depth check once it has gone on to \<open>Lock\<close>; it is winding
  down when only deferred calls are left; it is before its fetch until \<open>http.Get\<close> has
  returned.
\<close>

definition running :: "Task \<Rightarrow> bool" where
  "running t = (pc t \<noteq> Exited)"

definition holds_permit :: "Task \<Rightarrow> bool" where
  "holds_permit t =
     (case pc t of Fetch \<Rightarrow> True | Save _ \<Rightarrow> True | Extract _ \<Rightarrow> True | Spawn _ \<Rightarrow> True
      | Release \<Rightarrow> True | _ \<Rightarrow> False)"

definition in_critical :: "Task \<Rightarrow> bool" where
  "in_critical t =
     (case pc t of Check \<Rightarrow> True | Insert \<Rightarrow> True | UnlockSkip \<Rightarrow> True | UnlockOk \<Rightarrow> True
      | _ \<Rightarrow> False)"

definition past_check :: "Task \<Rightarrow> bool" where
  "past_check t = (pc t \<noteq> Start \<and> pc t \<noteq> WgDone \<and> pc t \<noteq> Exited)"

definition winding_down :: "Task \<Rightarrow> bool" where
  "winding_down t = (pc t = Release \<or> pc t = WgDone \<or> pc t = Exited)"

definition before_fetch :: "PC \<Rightarrow> bool" where
  "before_fetch p =
     (p = Start \<or> p = Lock \<or> p = Check \<or> p = Insert \<or> p = UnlockSkip \<or> p = UnlockOk \<or>
      p = Acquire \<or> p = Fetch)"

text \<open>The targets whose test of \<open>c.visited\<close> found them absent, in the order of the tests.\<close>

definition won :: "State \<Rightarrow> string list" where
  "won s = map fst (filter snd (claims s))"

text \<open>A key without a trailing slash.\<close>

definition trimmed :: "string \<Rightarrow> bool" where
  "trimmed k = (k = [] \<or> last k \<noteq> CHR ''/'')"

text \<open>
  What an action of goroutine \<open>j\<close> in state \<open>s\<close> does, read off the state \<open>u\<close> it leads to:
  the goroutine afterwards, the goroutines it started, the files and the shared crawler.
\<close>

definition on_other :: "State \<Rightarrow> nat \<Rightarrow> State \<Rightarrow> Task \<times> Task list \<times> (string \<rightharpoonup> string) \<times> Crawler" where
  "on_other s j u = (tasks u ! j, drop (length (tasks s)) (tasks u), files u, crawler u)"

subsection \<open>Invariants of a run\<close>

text \<open>
  The wait group counts the goroutines that have not returned; the channel holds one
  element per goroutine that holds a permit; the mutex is locked exactly when one
  goroutine is in the critical section.
\<close>

definition inv_wg :: "State \<Rightarrow> bool" where
  "inv_wg s = (wg (crawler s) = int (length (filter running (tasks s))))"

definition inv_sem :: "State \<Rightarrow> bool" where
  "inv_sem s =
     (chan_len (concurrencyChan (crawler s)) = length (filter holds_permit (tasks s)) \<and>
      chan_len (concurrencyChan (crawler s)) \<le> chan_cap (concurrencyChan (crawler s)))"

definition inv_mutex :: "State \<Rightarrow> bool" where
  "inv_mutex s =
     (length (filter in_critical (tasks s)) = (if visitedMutex (crawler s) then 1 else 0))"

text \<open>
  Depths are not negative, only the seed is at depth 0, a goroutine past the depth check
  is within the bound, and so is every fetch made.
\<close>

definition inv_depth :: "string \<Rightarrow> int \<Rightarrow> State \<Rightarrow> bool" where
  "inv_depth seed md s =
     (maxDepth (crawler s) = md \<and>
      (\<forall>j < length (tasks s).
         0 \<le> depth (tasks s ! j) \<and>
         (depth (tasks s ! j) = 0 \<longrightarrow> pageURL (tasks s ! j) = seed) \<and>
         (past_check (tasks s ! j) \<longrightarrow> depth (tasks s ! j) \<le> md)) \<and>
      (\<forall>(u, d) \<in> set (fetched s). 0 \<le> d \<and> d \<le> md \<and> (d = 0 \<longrightarrow> u = seed)))"

text \<open>
  No target was found absent twice; a target found absent is in the map or its finder is
  about to insert it; and a goroutine about to insert its target finds it still absent.
\<close>

definition inv_claims :: "State \<Rightarrow> bool" where
  "inv_claims s =
     (distinct (won s) \<and>
      (\<forall>u \<in> set (won s).
         visited (crawler s) u = Some True \<or>
         (\<exists>j < length (tasks s). pc (tasks s ! j) = Insert \<and> pageURL (tasks s ! j) = u)) \<and>
      (\<forall>j < length (tasks s).
         pc (tasks s ! j) = Insert \<longrightarrow> visited (crawler s) (pageURL (tasks s ! j)) \<noteq> Some True))"

text \<open>The fields of the crawler that no goroutine writes.\<close>

definition inv_conf :: "Crawler \<Rightarrow> State \<Rightarrow> bool" where
  "inv_conf c s =
     (baseURL (crawler s) = baseURL c \<and> maxDepth (crawler s) = maxDepth c \<and>
      outputDirectory (crawler s) = outputDirectory c \<and>
      chan_cap (concurrencyChan (crawler s)) = chan_cap (concurrencyChan c))"

definition Inv :: "Library \<Rightarrow> Crawler \<Rightarrow> State \<Rightarrow> bool" where
  "Inv L c s =
     (inv_conf c s \<and> inv_wg s \<and> inv_sem s \<and> inv_mutex s \<and>
      inv_depth (url_String L (baseURL c)) (maxDepth c) s \<and> inv_claims s)"

text \<open>
  A goroutine about to save its page has a URL that parses (\<open>http.Get\<close> parsed it), and a
  goroutine about to extract links holds a body with nothing left to read.
\<close>

definition inv_body :: "Library \<Rightarrow> State \<Rightarrow> bool" where
  "inv_body L s =
     (\<forall>j < length (tasks s).
        (\<forall>b. pc (tasks s ! j) = Save b \<longrightarrow> url_Parse L (pageURL (tasks s ! j)) \<noteq> None) \<and>
        (\<forall>b. pc (tasks s ! j) = Extract b \<longrightarrow> unread b = []))"

text \<open>The seed's goroutine is the only one, and it has fetched at most once.\<close>

definition inv_alone :: "State \<Rightarrow> bool" where
  "inv_alone s =
     (length (tasks s) = 1 \<and>
      (\<forall>links. pc (tasks s ! 0) = Spawn links \<longrightarrow> links = []) \<and>
      (\<forall>b. pc (tasks s ! 0) = Extract b \<longrightarrow> unread b = []) \<and>
      length (fetched s) \<le> 1 \<and>
      (before_fetch (pc (tasks s ! 0)) \<longrightarrow> fetched s = []))"

text \<open>
  The keys of a run: the goroutine at depth 0 has the key of the seed, every other goroutine
  and every link still to be visited has a key without trailing slash, and so have the
  keys in the visited map, the URLs fetched and the keys tested.
\<close>

definition key_ok :: "string \<Rightarrow> int \<Rightarrow> string \<Rightarrow> bool" where
  "key_ok seedKey d u = (if d = 0 then u = seedKey else trimmed u)"

definition inv_keys :: "string \<Rightarrow> State \<Rightarrow> bool" where
  "inv_keys seedKey s =
     ((\<forall>j < length (tasks s).
         0 \<le> depth (tasks s ! j) \<and>
         key_ok seedKey (depth (tasks s ! j)) (pageURL (tasks s ! j)) \<and>
         (\<forall>links. pc (tasks s ! j) = Spawn links \<longrightarrow> (\<forall>k \<in> set links. trimmed k))) \<and>
      (\<forall>u. visited (crawler s) u = Some True \<longrightarrow> u = seedKey \<or> trimmed u) \<and>
      (\<forall>(u, d) \<in> set (fetched s). key_ok seedKey d u) \<and>
      (\<forall>(u, b) \<in> set (claims s). u = seedKey \<or> trimmed u))"

subsection \<open>The measure of a state\<close>

text \<open>
  Every action replaces the weight of one goroutine by a smaller one and, when it starts a
  goroutine, adds the weight of the child, smaller too: the depth left, then the statements
  left, then the links left to loop over. States are compared by the multiset of the
  weights of their goroutines.
\<close>

definition stage :: "PC \<Rightarrow> nat" where
  "stage p =
     (case p of
        Start \<Rightarrow> 13 | Lock \<Rightarrow> 12 | Check \<Rightarrow> 11 | Insert \<Rightarrow> 10 | UnlockOk \<Rightarrow> 9
      | Acquire \<Rightarrow> 8 | Fetch \<Rightarrow> 7 | Save _ \<Rightarrow> 6 | Extract _ \<Rightarrow> 5 | Spawn _ \<Rightarrow> 4
      | Release \<Rightarrow> 3 | UnlockSkip \<Rightarrow> 3 | WgDone \<Rightarrow> 2 | Exited \<Rightarrow> 1)"

definition links_left :: "PC \<Rightarrow> nat" where
  "links_left p = (case p of Spawn links \<Rightarrow> length links | _ \<Rightarrow> 0)"

definition weight :: "int \<Rightarrow> Task \<Rightarrow> nat \<times> nat \<times> nat" where
  "weight md t = (nat (md + 1 - depth t), stage (pc t), links_left (pc t))"

definition task_order :: "((nat \<times> nat \<times> nat) \<times> (nat \<times> nat \<times> nat)) set" where
  "task_order = less_than <*lex*> less_than <*lex*> less_than"

definition state_measure :: "int \<Rightarrow> State \<Rightarrow> (nat \<times> nat \<times> nat) multiset" where
  "state_measure md s = mset (map (weight md) (tasks s))"

definition crawl_rel :: "Library \<Rightarrow> World \<Rightarrow> Crawler \<Rightarrow> (State \<times> State) set" where
  "crawl_rel L W c = {(s', s). Inv L c s \<and> (\<exists>i. step L W s i = Some s')}"

section \<open>Properties of the actions\<close>

lemma tasks_goto [simp]: "tasks (goto s i p) = (tasks s)[i := (tasks s ! i)\<lparr>pc := p\<rparr>]"
  and crawler_goto [simp]: "crawler (goto s i p) = crawler s"
  and files_goto [simp]: "files (goto s i p) = files s"
  and printed_goto [simp]: "printed (goto s i p) = printed s"
  and fetched_goto [simp]: "fetched (goto s i p) = fetched s"
  and claims_goto [simp]: "claims (goto s i p) = claims s"
  by (simp_all add: goto_def)

lemma step_Some_index: "step L W s i = Some s' \<Longrightarrow> i < length (tasks s)"
  by (cases "length (tasks s) \<le> i") (simp_all add: step_def)

text \<open>The actions of a goroutine, one case for each way through each statement.\<close>

lemma step_cases [consumes 1, case_names Start Lock CheckSkip CheckOk Insert UnlockSkip UnlockOk
    Acquire FetchErr FetchOk Save Extract SpawnNil SpawnValid SpawnInvalid Release WgDone]:
  assumes st: "step L W s i = Some s'"
  obtains
    (Start) "i < length (tasks s)" "pc (tasks s ! i) = Start"
      "s' = goto s i (if maxDepth (crawler s) < depth (tasks s ! i) then WgDone else Lock)"
  | (Lock) "i < length (tasks s)" "pc (tasks s ! i) = Lock" "\<not> visitedMutex (crawler s)"
      "s' = (goto s i Check)\<lparr>crawler := (crawler s)\<lparr>visitedMutex := True\<rparr>\<rparr>"
  | (CheckSkip) "i < length (tasks s)" "pc (tasks s ! i) = Check"
      "visited (crawler s) (pageURL (tasks s ! i)) = Some True"
      "s' = (goto s i UnlockSkip)\<lparr>claims := claims s @ [(pageURL (tasks s ! i), False)]\<rparr>"
  | (CheckOk) "i < length (tasks s)" "pc (tasks s ! i) = Check"
      "visited (crawler s) (pageURL (tasks s ! i)) \<noteq> Some True"
      "s' = (goto s i Insert)\<lparr>claims := claims s @ [(pageURL (tasks s ! i), True)]\<rparr>"
  | (Insert) "i < length (tasks s)" "pc (tasks s ! i) = Insert"
      "s' = (goto s i UnlockOk)
              \<lparr>crawler := (crawler s)\<lparr>visited := (visited (crawler s))(pageURL (tasks s ! i) \<mapsto> True)\<rparr>\<rparr>"
  | (UnlockSkip) "i < length (tasks s)" "pc (tasks s ! i) = UnlockSkip"
      "s' = (goto s i WgDone)\<lparr>crawler := (crawler s)\<lparr>visitedMutex := False\<rparr>\<rparr>"
  | (UnlockOk) "i < length (tasks s)" "pc (tasks s ! i) = UnlockOk"
      "s' = (goto s i Acquire)\<lparr>crawler := (crawler s)\<lparr>visitedMutex := False\<rparr>\<rparr>"
  | (Acquire) "i < length (tasks s)" "pc (tasks s ! i) = Acquire"
      "chan_len (concurrencyChan (crawler s)) < chan_cap (concurrencyChan (crawler s))"
      "s' = (goto s i Fetch)
              \<lparr>crawler := (crawler s)\<lparr>concurrencyChan := (concurrencyChan (crawler s))
                 \<lparr>chan_len := chan_len (concurrencyChan (crawler s)) + 1\<rparr>\<rparr>\<rparr>"
  | (FetchErr) "i < length (tasks s)" "pc (tasks s ! i) = Fetch"
      "http_Get L W (pageURL (tasks s ! i)) = None"
      "s' = (goto s i Release)
              \<lparr>printed := printed s @ [ErrorFetching (pageURL (tasks s ! i))],
               fetched := fetched s @ [(pageURL (tasks s ! i), depth (tasks s ! i))]\<rparr>"
  | (FetchOk) body where "i < length (tasks s)" "pc (tasks s ! i) = Fetch"
      "http_Get L W (pageURL (tasks s ! i)) = Some body"
      "s' = (goto s i (Save body))
              \<lparr>fetched := fetched s @ [(pageURL (tasks s ! i), depth (tasks s ! i))]\<rparr>"
  | (Save) body err body' fs where "i < length (tasks s)" "pc (tasks s ! i) = Save body"
      "savePage L W (crawler s) (pageURL (tasks s ! i)) body (files s) = (err, body', fs)"
      "s' = (goto s i (Extract body'))
              \<lparr>files := fs,
               printed := (case err of None \<Rightarrow> printed s
                           | Some e \<Rightarrow> printed s @ [ErrorSaving (pageURL (tasks s ! i)) e])\<rparr>"
  | (Extract) body where "i < length (tasks s)" "pc (tasks s ! i) = Extract body"
      "s' = goto s i (Spawn (extractLinks L (crawler s) body (pageURL (tasks s ! i))))"
  | (SpawnNil) "i < length (tasks s)" "pc (tasks s ! i) = Spawn []" "s' = goto s i Release"
  | (SpawnValid) link links where "i < length (tasks s)" "pc (tasks s ! i) = Spawn (link # links)"
      "isValidLink L (crawler s) link"
      "s' = s\<lparr>crawler := (crawler s)\<lparr>wg := wg (crawler s) + 1\<rparr>,
              tasks := (tasks s)[i := (tasks s ! i)\<lparr>pc := Spawn links\<rparr>]
                         @ [\<lparr>pageURL = link, depth = depth (tasks s ! i) + 1, pc = Start\<rparr>]\<rparr>"
  | (SpawnInvalid) link links where "i < length (tasks s)" "pc (tasks s ! i) = Spawn (link # links)"
      "\<not> isValidLink L (crawler s) link" "s' = goto s i (Spawn links)"
  | (Release) "i < length (tasks s)" "pc (tasks s ! i) = Release"
      "0 < chan_len (concurrencyChan (crawler s))"
      "s' = (goto s i WgDone)
              \<lparr>crawler := (crawler s)\<lparr>concurrencyChan := (concurrencyChan (crawler s))
                 \<lparr>chan_len := chan_len (concurrencyChan (crawler s)) - 1\<rparr>\<rparr>\<rparr>"
  | (WgDone) "i < length (tasks s)" "pc (tasks s ! i) = WgDone"
      "s' = (goto s i Exited)\<lparr>crawler := (crawler s)\<lparr>wg := wg (crawler s) - 1\<rparr>\<rparr>"
proof -
  have i: "i < length (tasks s)" using st by (rule step_Some_index)
  then have nle: "\<not> length (tasks s) \<le> i" by simp
  show thesis
  proof (cases "pc (tasks s ! i)")
    case Start
    with st nle have "s' = goto s i (if maxDepth (crawler s) < depth (tasks s ! i) then WgDone else Lock)"
      by (simp add: step_def Let_def)
    with i Start show thesis by (rule that(1))
  next
    case Lock
    with st nle have "\<not> visitedMutex (crawler s)"
      and "s' = (goto s i Check)\<lparr>crawler := (crawler s)\<lparr>visitedMutex := True\<rparr>\<rparr>"
      by (simp_all add: step_def Let_def split: if_splits)
    with i Lock show thesis by (rule that(2))
  next
    case Check
    show thesis
    proof (cases "visited (crawler s) (pageURL (tasks s ! i)) = Some True")
      case True
      with st nle Check
      have "s' = (goto s i UnlockSkip)\<lparr>claims := claims s @ [(pageURL (tasks s ! i), False)]\<rparr>"
        by (simp add: step_def Let_def)
      with i Check True show thesis by (rule that(3))
    next
      case False
      with st nle Check
      have "s' = (goto s i Insert)\<lparr>claims := claims s @ [(pageURL (tasks s ! i), True)]\<rparr>"
        by (simp add: step_def Let_def)
      with i Check False show thesis by (rule that(4))
    qed
  next
    case Insert
    with st nle have "s' = (goto s i UnlockOk)
              \<lparr>crawler := (crawler s)\<lparr>visited := (visited (crawler s))(pageURL (tasks s ! i) \<mapsto> True)\<rparr>\<rparr>"
      by (simp add: step_def Let_def)
    with i Insert show thesis by (rule that(5))
  next
    case UnlockSkip
    with st nle have "s' = (goto s i WgDone)\<lparr>crawler := (crawler s)\<lparr>visitedMutex := False\<rparr>\<rparr>"
      by (simp add: step_def Let_def)
    with i UnlockSkip show thesis by (rule that(6))
  next
    case UnlockOk
    with st nle have "s' = (goto s i Acquire)\<lparr>crawler := (crawler s)\<lparr>visitedMutex := False\<rparr>\<rparr>"
      by (simp add: step_def Let_def)
    with i UnlockOk show thesis by (rule that(7))
  next
    case Acquire
    with st nle have "chan_len (concurrencyChan (crawler s)) < chan_cap (concurrencyChan (crawler s))"
      and "s' = (goto s i Fetch)
              \<lparr>crawler := (crawler s)\<lparr>concurrencyChan := (concurrencyChan (crawler s))
                 \<lparr>chan_len := chan_len (concurrencyChan (crawler s)) + 1\<rparr>\<rparr>\<rparr>"
      by (simp_all add: step_def Let_def split: if_splits)
    with i Acquire show thesis by (rule that(8))
  next
    case Fetch
    show thesis
    proof (cases "http_Get L W (pageURL (tasks s ! i))")
      case None
      with st nle Fetch have "s' = (goto s i Release)
              \<lparr>printed := printed s @ [ErrorFetching (pageURL (tasks s ! i))],
               fetched := fetched s @ [(pageURL (tasks s ! i), depth (tasks s ! i))]\<rparr>"
        by (simp add: step_def Let_def)
      with i Fetch None show thesis by (rule that(9))
    next
      case (Some body)
      with st nle Fetch have "s' = (goto s i (Save body))
              \<lparr>fetched := fetched s @ [(pageURL (tasks s ! i), depth (tasks s ! i))]\<rparr>"
        by (simp add: step_def Let_def)
      with i Fetch Some show thesis by (rule that(10))
    qed
  next
    case (Save body)
    obtain err body' fs
      where sp: "savePage L W (crawler s) (pageURL (tasks s ! i)) body (files s) = (err, body', fs)"
      by (cases "savePage L W (crawler s) (pageURL (tasks s ! i)) body (files s)") auto
    with st nle Save have "s' = (goto s i (Extract body'))
              \<lparr>files := fs,
               printed := (case err of None \<Rightarrow> printed s
                           | Some e \<Rightarrow> printed s @ [ErrorSaving (pageURL (tasks s ! i)) e])\<rparr>"
      by (simp add: step_def Let_def)
    with i Save sp show thesis by (rule that(11))
  next
    case (Extract body)
    with st nle have "s' = goto s i (Spawn (extractLinks L (crawler s) body (pageURL (tasks s ! i))))"
      by (simp add: step_def Let_def)
    with i Extract show thesis by (rule that(12))
  next
    case (Spawn ls)
    show thesis
    proof (cases ls)
      case Nil
      with st nle Spawn have "s' = goto s i Release" by (simp add: step_def Let_def)
      with i Spawn Nil show thesis using that(13) by simp
    next
      case (Cons link links)
      show thesis
      proof (cases "isValidLink L (crawler s) link")
        case True
        with st nle Spawn Cons
        have "s' = s\<lparr>crawler := (crawler s)\<lparr>wg := wg (crawler s) + 1\<rparr>,
              tasks := (tasks s)[i := (tasks s ! i)\<lparr>pc := Spawn links\<rparr>]
                         @ [\<lparr>pageURL = link, depth = depth (tasks s ! i) + 1, pc = Start\<rparr>]\<rparr>"
          by (simp add: step_def Let_def)
        with i Spawn Cons True show thesis using that(14) by simp
      next
        case False
        with st nle Spawn Cons have "s' = goto s i (Spawn links)" by (simp add: step_def Let_def)
        with i Spawn Cons False show thesis using that(15) by simp
      qed
    qed
  next
    case Release
    with st nle have "0 < chan_len (concurrencyChan (crawler s))"
      and "s' = (goto s i WgDone)
              \<lparr>crawler := (crawler s)\<lparr>concurrencyChan := (concurrencyChan (crawler s))
                 \<lparr>chan_len := chan_len (concurrencyChan (crawler s)) - 1\<rparr>\<rparr>\<rparr>"
      by (simp_all add: step_def Let_def split: if_splits)
    with i Release show thesis by (rule that(16))
  next
    case WgDone
    with st nle have "s' = (goto s i Exited)\<lparr>crawler := (crawler s)\<lparr>wg := wg (crawler s) - 1\<rparr>\<rparr>"
      by (simp add: step_def Let_def)
    with i WgDone show thesis by (rule that(17))
  next
    case Exited
    with st nle show thesis by (simp add: step_def Let_def)
  qed
qed

subsection \<open>Counting goroutines\<close>

lemma filter_update_length:
  "i < length xs \<Longrightarrow>
   length (filter P (xs[i := y])) + (if P (xs ! i) then 1 else 0) =
   length (filter P xs) + (if P y then 1 else 0)"
proof (induction xs arbitrary: i)
  case Nil
  then show ?case by simp
next
  case (Cons x xs)
  then show ?case by (cases i) auto
qed

lemma filter_update_same:
  "i < length xs \<Longrightarrow> P (xs ! i) = P y \<Longrightarrow> length (filter P (xs[i := y])) = length (filter P xs)"
  using filter_update_length[of i xs P y] by (simp split: if_splits)

lemma filter_update_gain:
  "i < length xs \<Longrightarrow> \<not> P (xs ! i) \<Longrightarrow> P y \<Longrightarrow>
   length (filter P (xs[i := y])) = Suc (length (filter P xs))"
  using filter_update_length[of i xs P y] by simp

lemma filter_update_lose:
  "i < length xs \<Longrightarrow> P (xs ! i) \<Longrightarrow> \<not> P y \<Longrightarrow>
   Suc (length (filter P (xs[i := y]))) = length (filter P xs)"
  using filter_update_length[of i xs P y] by simp

subsection \<open>Every action keeps the invariants\<close>

lemma inv_wg_step:
  assumes "inv_wg s" and "step L W s i = Some s'"
  shows "inv_wg s'"
  using assms(2)
proof (cases rule: step_cases)
  case WgDone
  with assms(1) filter_update_lose[of i "tasks s" running "(tasks s ! i)\<lparr>pc := Exited\<rparr>"]
  show ?thesis by (simp add: inv_wg_def running_def)
qed (use assms(1) in \<open>simp_all add: inv_wg_def running_def filter_update_same\<close>)

lemma inv_sem_step:
  assumes "inv_sem s" and "step L W s i = Some s'"
  shows "inv_sem s'"
  using assms(2)
proof (cases rule: step_cases)
  case Acquire
  with assms(1) filter_update_gain[of i "tasks s" holds_permit "(tasks s ! i)\<lparr>pc := Fetch\<rparr>"]
  show ?thesis by (simp add: inv_sem_def holds_permit_def)
next
  case Release
  with assms(1) filter_update_lose[of i "tasks s" holds_permit "(tasks s ! i)\<lparr>pc := WgDone\<rparr>"]
  show ?thesis by (simp add: inv_sem_def holds_permit_def, arith)
qed (use assms(1) in \<open>simp_all add: inv_sem_def holds_permit_def filter_update_same\<close>)

lemma inv_mutex_step:
  assumes "inv_mutex s" and "step L W s i = Some s'"
  shows "inv_mutex s'"
  using assms(2)
proof (cases rule: step_cases)
  case Lock
  with assms(1) filter_update_gain[of i "tasks s" in_critical "(tasks s ! i)\<lparr>pc := Check\<rparr>"]
  show ?thesis by (simp add: inv_mutex_def in_critical_def)
next
  case UnlockSkip
  with assms(1) filter_update_lose[of i "tasks s" in_critical "(tasks s ! i)\<lparr>pc := WgDone\<rparr>"]
  show ?thesis by (simp add: inv_mutex_def in_critical_def split: if_splits)
next
  case UnlockOk
  with assms(1) filter_update_lose[of i "tasks s" in_critical "(tasks s ! i)\<lparr>pc := Acquire\<rparr>"]
  show ?thesis by (simp add: inv_mutex_def in_critical_def split: if_splits)
qed (use assms(1) in \<open>simp_all add: inv_mutex_def in_critical_def filter_update_same\<close>)

lemma inv_depth_step:
  assumes "inv_depth seed md s" and "step L W s i = Some s'"
  shows "inv_depth seed md s'"
  using assms(2)
proof (cases rule: step_cases)
  case SpawnValid
  with assms(1) show ?thesis
    by (auto simp add: inv_depth_def past_check_def nth_list_update nth_append less_Suc_eq)
qed (use assms(1) in \<open>auto simp add: inv_depth_def past_check_def nth_list_update\<close>)

lemma filter_two:
  assumes "i < length xs" "j < length xs" "i \<noteq> j" "P (xs ! i)" "P (xs ! j)"
  shows "2 \<le> length (filter P xs)"
proof -
  have "{i, j} \<subseteq> {k. k < length xs \<and> P (xs ! k)}" using assms by simp
  then have "card {i, j} \<le> card {k. k < length xs \<and> P (xs ! k)}"
    by (intro card_mono) simp_all
  then show ?thesis using assms(3) by (simp add: length_filter_conv_card)
qed

lemma mutual_exclusion:
  assumes "inv_mutex s" "i < length (tasks s)" "j < length (tasks s)"
    "in_critical (tasks s ! i)" "in_critical (tasks s ! j)"
  shows "i = j"
proof (rule ccontr)
  assume "i \<noteq> j"
  then have "2 \<le> length (filter in_critical (tasks s))"
    using assms(2-5) by (simp add: filter_two)
  with assms(1) show False by (simp add: inv_mutex_def split: if_splits)
qed

lemma inv_claims_frame:
  assumes inv: "inv_claims s"
    and i: "i < length (tasks s)" "pc (tasks s ! i) \<noteq> Insert"
    and s': "length (tasks s) \<le> length (tasks s')"
      "\<forall>j < length (tasks s'). j \<noteq> i \<longrightarrow>
         (if j < length (tasks s) then tasks s' ! j = tasks s ! j else pc (tasks s' ! j) \<noteq> Insert)"
      "pc (tasks s' ! i) \<noteq> Insert"
      "visited (crawler s') = visited (crawler s)" "won s' = won s"
  shows "inv_claims s'"
  unfolding inv_claims_def
proof (intro conjI ballI allI impI)
  show "distinct (won s')" using inv s'(5) by (simp add: inv_claims_def)
next
  fix u assume "u \<in> set (won s')"
  with inv s'(5) have "visited (crawler s) u = Some True \<or>
       (\<exists>j<length (tasks s). pc (tasks s ! j) = Insert \<and> pageURL (tasks s ! j) = u)"
    by (simp add: inv_claims_def)
  then show "visited (crawler s') u = Some True \<or>
       (\<exists>j<length (tasks s'). pc (tasks s' ! j) = Insert \<and> pageURL (tasks s' ! j) = u)"
  proof
    assume "visited (crawler s) u = Some True"
    then show ?thesis using s'(4) by simp
  next
    assume "\<exists>j<length (tasks s). pc (tasks s ! j) = Insert \<and> pageURL (tasks s ! j) = u"
    then obtain j where j: "j < length (tasks s)" "pc (tasks s ! j) = Insert" "pageURL (tasks s ! j) = u"
      by blast
    then have "j \<noteq> i" using i(2) by auto
    with j s'(1,2) have "j < length (tasks s') \<and> tasks s' ! j = tasks s ! j" by simp
    with j have "j < length (tasks s') \<and> pc (tasks s' ! j) = Insert \<and> pageURL (tasks s' ! j) = u"
      by simp
    then show ?thesis by blast
  qed
next
  fix j assume j: "j < length (tasks s')" "pc (tasks s' ! j) = Insert"
  then have ji: "j \<noteq> i" using s'(3) by auto
  with j s'(2) have "j < length (tasks s)" by (auto split: if_splits)
  with j ji s'(2) have "tasks s' ! j = tasks s ! j" by simp
  with inv j(2) \<open>j < length (tasks s)\<close> s'(4)
  show "visited (crawler s') (pageURL (tasks s' ! j)) \<noteq> Some True"
    by (simp add: inv_claims_def)
qed

lemma inv_claims_step:
  assumes "inv_claims s" and "inv_mutex s" and "step L W s i = Some s'"
  shows "inv_claims s'"
  using assms(3)
proof (cases rule: step_cases)
  case CheckOk
  have no_ins: "pc (tasks s ! j) \<noteq> Insert" if "j < length (tasks s)" for j
  proof
    assume "pc (tasks s ! j) = Insert"
    with mutual_exclusion[OF assms(2) CheckOk(1) that] CheckOk(2) show False
      by (auto simp: in_critical_def)
  qed
  with assms(1) CheckOk(3) have fresh: "pageURL (tasks s ! i) \<notin> set (won s)"
    by (auto simp: inv_claims_def)
  have won': "won s' = won s @ [pageURL (tasks s ! i)]"
    using CheckOk(4) by (simp add: won_def)
  show ?thesis
    unfolding inv_claims_def
  proof (intro conjI ballI allI impI)
    show "distinct (won s')"
      using assms(1) fresh won' by (simp add: inv_claims_def)
  next
    fix u assume "u \<in> set (won s')"
    then have "u = pageURL (tasks s ! i) \<or> u \<in> set (won s)"
      using won' by auto
    then show "visited (crawler s') u = Some True \<or>
         (\<exists>j<length (tasks s'). pc (tasks s' ! j) = Insert \<and> pageURL (tasks s' ! j) = u)"
    proof
      assume "u = pageURL (tasks s ! i)"
      then have "i < length (tasks s') \<and> pc (tasks s' ! i) = Insert \<and> pageURL (tasks s' ! i) = u"
        using CheckOk(1,4) by simp
      then show ?thesis by blast
    next
      assume "u \<in> set (won s)"
      with assms(1) no_ins have "visited (crawler s) u = Some True"
        by (auto simp: inv_claims_def)
      then show ?thesis using CheckOk(4) by simp
    qed
  next
    fix j assume "j < length (tasks s')" "pc (tasks s' ! j) = Insert"
    then have "j = i" using no_ins CheckOk(1,4) by (auto simp: nth_list_update split: if_splits)
    then show "visited (crawler s') (pageURL (tasks s' ! j)) \<noteq> Some True"
      using CheckOk by simp
  qed
next
  case Insert
  have only: "j = i" if "j < length (tasks s)" "pc (tasks s ! j) = Insert" for j
    using mutual_exclusion[OF assms(2) that(1) Insert(1)] that(2) Insert(2)
    by (simp add: in_critical_def)
  have won': "won s' = won s" using Insert(3) by (simp add: won_def)
  show ?thesis
    unfolding inv_claims_def
  proof (intro conjI ballI allI impI)
    show "distinct (won s')"
      using assms(1) won' by (simp add: inv_claims_def)
  next
    fix u assume "u \<in> set (won s')"
    with assms(1) won' have "visited (crawler s) u = Some True \<or>
         (\<exists>j<length (tasks s). pc (tasks s ! j) = Insert \<and> pageURL (tasks s ! j) = u)"
      by (simp add: inv_claims_def)
    then have "visited (crawler s) u = Some True \<or> u = pageURL (tasks s ! i)"
      using only by auto
    then have "visited (crawler s') u = Some True" using Insert(3) by auto
    then show "visited (crawler s') u = Some True \<or>
         (\<exists>j<length (tasks s'). pc (tasks s' ! j) = Insert \<and> pageURL (tasks s' ! j) = u)" ..
  next
    fix j assume "j < length (tasks s')" "pc (tasks s' ! j) = Insert"
    then have False using only Insert(1,3) by (auto simp: nth_list_update split: if_splits)
    then show "visited (crawler s') (pageURL (tasks s' ! j)) \<noteq> Some True" ..
  qed
next
  case SpawnValid
  show ?thesis
    by (rule inv_claims_frame[OF assms(1) SpawnValid(1)])
       (use SpawnValid in \<open>simp_all add: won_def nth_append nth_list_update\<close>)
qed (rule inv_claims_frame[OF assms(1), where i = i]; simp add: won_def nth_list_update)+

subsection \<open>Strings, file names and the result of NewCrawler\<close>

lemma Contains_single: "Contains s [c] \<longleftrightarrow> c \<in> set s"
  by (induction s) (auto simp: HasPrefix_def)

lemma HasPrefix_append: "HasPrefix s p \<longleftrightarrow> (\<exists>r. s = p @ r)"
  unfolding HasPrefix_def by (metis append_eq_conv_conj append_take_drop_id)

lemma ReplaceAll_byte:
  "ReplaceAll s [a] [b] = map (\<lambda>x. if x = a then b else x) s"
proof (induction s)
  case Nil
  show ?case by (simp add: ReplaceAll.simps[of "[]"])
next
  case (Cons x s)
  then show ?case by (simp add: ReplaceAll.simps[of "x # s"] HasPrefix_def)
qed

lemma filename_of_eq:
  "filename_of path =
     (if path = [] \<or> path = ''/'' \<or> path = ''_'' then ''index''
      else map (\<lambda>x. if x = CHR ''/'' then CHR ''_'' else x) path)"
proof -
  let ?m = "map (\<lambda>x. if x = CHR ''/'' then CHR ''_'' else x) path"
  have "?m = ''_'' \<longleftrightarrow> path = ''/'' \<or> path = ''_''"
    by (cases path) (auto split: if_splits)
  then show ?thesis by (simp add: filename_of_def ReplaceAll_byte)
qed

lemma NewCrawler_Inr:
  assumes "NewCrawler L seed md mc = Inr c"
  shows "\<exists>root. url_Parse L seed = Some root \<and> 0 \<le> mc \<and>
     c = \<lparr>baseURL = root, visited = Map.empty, visitedMutex = False, maxDepth = md,
          outputDirectory = filepath_Join L [''crawl_output'', url_Hostname L root], wg = 0,
          concurrencyChan = \<lparr>chan_cap = nat mc, chan_len = 0\<rparr>\<rparr>"
  using assms by (auto simp: NewCrawler_def Let_def split: option.splits if_splits)

text \<open>The equations that evaluate the instance \<open>go_lib\<close> on a given string.\<close>

lemmas go_eval =
  NewCrawler_def go_lib_def go_Parse_def go_String_def go_Hostname_def go_ResolveReference_def
  resolvePath_def resolve_elem_def go_Join_def Clean_def clean_elem_def Cut_def getScheme_def
  letters_def digits_def ToLower_def HasPrefix_def TrimRight_def Let_def

subsection \<open>The invariants hold in every state of every run\<close>

lemma inv_conf_step:
  assumes "inv_conf c s" and "step L W s i = Some s'"
  shows "inv_conf c s'"
  using assms(2) by (cases rule: step_cases) (use assms(1) in \<open>simp_all add: inv_conf_def\<close>)

lemma Inv_step: "Inv L c s \<Longrightarrow> step L W s i = Some s' \<Longrightarrow> Inv L c s'"
  unfolding Inv_def
  using inv_conf_step[of c s L W i s'] inv_wg_step[of s L W i s'] inv_sem_step[of s L W i s']
    inv_mutex_step[of s L W i s'] inv_claims_step[of s L W i s']
    inv_depth_step[of "url_String L (baseURL c)" "maxDepth c" s L W i s']
  by simp

lemma Inv_sched_step: "Inv L c s \<Longrightarrow> Inv L c (sched_step L W i s)"
  by (cases "step L W s i") (simp_all add: sched_step_def Inv_step)

lemma Inv_run: "Inv L c s \<Longrightarrow> Inv L c (run L W sched s)"
  unfolding run_def by (induction sched arbitrary: s) (simp_all add: Inv_sched_step)

lemma Inv_init:
  assumes "NewCrawler L seed md mc = Inr c"
  shows "Inv L c (Crawl_init L c)"
proof -
  from NewCrawler_Inr[OF assms] obtain root where
    c: "c = \<lparr>baseURL = root, visited = Map.empty, visitedMutex = False, maxDepth = md,
          outputDirectory = filepath_Join L [''crawl_output'', url_Hostname L root], wg = 0,
          concurrencyChan = \<lparr>chan_cap = nat mc, chan_len = 0\<rparr>\<rparr>"
    by blast
  show ?thesis
    unfolding Inv_def
    by (simp add: c Crawl_init_def inv_conf_def inv_wg_def inv_sem_def inv_mutex_def inv_depth_def
        inv_claims_def won_def running_def holds_permit_def in_critical_def past_check_def)
qed

lemma Inv_reach:
  "NewCrawler L seed md mc = Inr c \<Longrightarrow> Inv L c (run L W sched (Crawl_init L c))"
  by (rule Inv_run) (rule Inv_init)

lemma run_append: "run L W (xs @ ys) s = run L W ys (run L W xs s)"
  by (simp add: run_def)

lemma visited_step_mono:
  assumes "step L W s i = Some s'" and "visited (crawler s) u = Some True"
  shows "visited (crawler s') u = Some True"
  using assms(1) by (cases rule: step_cases) (use assms(2) in simp_all)

lemma visited_run_mono:
  "visited (crawler s) u = Some True \<Longrightarrow> visited (crawler (run L W sched s)) u = Some True"
  unfolding run_def
proof (induction sched arbitrary: s)
  case Nil
  then show ?case by simp
next
  case (Cons i sched)
  have "visited (crawler (sched_step L W i s)) u = Some True"
    using Cons.prems by (cases "step L W s i") (simp_all add: sched_step_def visited_step_mono)
  then show ?case using Cons.IH by simp
qed

lemma length_filter_mono:
  "(\<And>x. x \<in> set xs \<Longrightarrow> P x \<Longrightarrow> Q x) \<Longrightarrow> length (filter P xs) \<le> length (filter Q xs)"
  by (induction xs) auto

lemma NewCrawler_site:
  "0 \<le> mc \<Longrightarrow> NewCrawler go_lib ''https://site.com/'' md mc = Inr (site_crawler md (nat mc))"
  "0 \<le> mc \<Longrightarrow> NewCrawler fanout_lib ''https://site.com/'' md mc = Inr (site_crawler md (nat mc))"
  by (simp_all add: go_eval fanout_lib_def site_crawler_def)

lemma distinct_filter_eq_le1: "distinct xs \<Longrightarrow> length (filter (\<lambda>x. x = a) xs) \<le> 1"
  by (induction xs) (auto simp: filter_empty_conv)

lemma won_count: "length (filter (\<lambda>e. e = (T, True)) cs) = length (filter (\<lambda>u. u = T) (map fst (filter snd cs)))"
  by (induction cs) auto

subsection \<open>Every action makes the state smaller\<close>

lemma wf_task_order: "wf task_order"
  by (simp add: task_order_def wf_lex_prod)

lemma mset_update_decreases:
  assumes "i < length xs" "(w y, w (xs ! i)) \<in> r" "\<forall>k \<in> set kids. (w k, w (xs ! i)) \<in> r"
  shows "(mset (map w (xs[i := y] @ kids)), mset (map w xs)) \<in> mult r"
proof -
  let ?M = "mset (map w xs) - {#w (xs ! i)#}"
  let ?K = "add_mset (w y) (mset (map w kids))"
  have mem: "w (xs ! i) \<in># mset (map w xs)" using assms(1) by simp
  then have 1: "mset (map w xs) = ?M + {#w (xs ! i)#}" by simp
  have "mset (map w (xs[i := y])) = add_mset (w y) ?M"
    using assms(1) mset_update[of i "map w xs" "w y"] by (simp add: map_update)
  then have 2: "mset (map w (xs[i := y] @ kids)) = ?M + ?K" by simp
  have "(?M + ?K, ?M + {#w (xs ! i)#}) \<in> mult r"
    by (rule one_step_implies_mult) (use assms(2,3) in auto)
  with 1 2 show ?thesis by simp
qed

lemma mset_update_decreases0:
  assumes "i < length xs" "(w y, w (xs ! i)) \<in> r"
  shows "(mset (map w (xs[i := y])), mset (map w xs)) \<in> mult r"
  using mset_update_decreases[OF assms, of "[]"] by simp

lemma pc_decreases:
  assumes "i < length (tasks s)"
    and "tasks s' = (tasks s)[i := (tasks s ! i)\<lparr>pc := pc (tasks s' ! i)\<rparr>]"
    and "stage (pc (tasks s' ! i)) < stage (pc (tasks s ! i)) \<or>
         stage (pc (tasks s' ! i)) = stage (pc (tasks s ! i)) \<and>
         links_left (pc (tasks s' ! i)) < links_left (pc (tasks s ! i))"
  shows "(state_measure md s', state_measure md s) \<in> mult task_order"
  unfolding state_measure_def
  by (subst assms(2), rule mset_update_decreases0[OF assms(1)])
     (use assms(3) in \<open>auto simp add: weight_def task_order_def\<close>)

lemma step_decreases:
  assumes "inv_depth seed md s" and "step L W s i = Some s'"
  shows "(state_measure md s', state_measure md s) \<in> mult task_order"
  using assms(2)
proof (cases rule: step_cases)
  case (SpawnValid link links)
  from assms(1) SpawnValid(1,2) have "depth (tasks s ! i) \<le> md"
    by (simp add: inv_depth_def past_check_def)
  then have d: "nat (md + 1 - (depth (tasks s ! i) + 1)) < nat (md + 1 - depth (tasks s ! i))"
    by simp
  have t: "tasks s' = (tasks s)[i := (tasks s ! i)\<lparr>pc := Spawn links\<rparr>]
                        @ [\<lparr>pageURL = link, depth = depth (tasks s ! i) + 1, pc = Start\<rparr>]"
    using SpawnValid(4) by simp
  show ?thesis
    unfolding state_measure_def t
    by (rule mset_update_decreases[OF SpawnValid(1)])
       (use d SpawnValid(2) in \<open>simp_all add: weight_def task_order_def stage_def links_left_def\<close>)
qed (rule pc_decreases[where i = i]; simp add: stage_def links_left_def)+

subsection \<open>A state in which no goroutine can act\<close>

lemma enabled_empty: "enabled L W s = [] \<longleftrightarrow> (\<forall>i < length (tasks s). step L W s i = None)"
  by (auto simp: enabled_def filter_empty_conv)

lemma step_free:
  assumes "i < length (tasks s)"
    and "pc (tasks s ! i) \<noteq> Lock" "pc (tasks s ! i) \<noteq> Acquire" "pc (tasks s ! i) \<noteq> Release"
      "pc (tasks s ! i) \<noteq> Exited"
  shows "step L W s i \<noteq> None"
  using assms
  by (cases "pc (tasks s ! i)")
     (simp_all add: step_def Let_def split: option.splits prod.splits list.splits)

lemma step_Release:
  assumes "i < length (tasks s)" "pc (tasks s ! i) = Release"
    "0 < chan_len (concurrencyChan (crawler s))"
  shows "step L W s i \<noteq> None"
  using assms by (simp add: step_def Let_def)

lemma filter_nonempty_index:
  "0 < length (filter P xs) \<Longrightarrow> \<exists>k < length xs. P (xs ! k)"
  by (metis filter_False in_set_conv_nth length_greater_0_conv)

lemma filter_member_pos: "i < length xs \<Longrightarrow> P (xs ! i) \<Longrightarrow> 0 < length (filter P xs)"
  by (metis filter_empty_conv length_greater_0_conv nth_mem)

lemma quiescent_all_exited:
  assumes inv: "Inv L c s" and cap: "0 < chan_cap (concurrencyChan c)"
    and q: "enabled L W s = []"
  shows "\<forall>i < length (tasks s). pc (tasks s ! i) = Exited"
proof (intro allI impI, rule ccontr)
  fix i assume i: "i < length (tasks s)" and ne: "pc (tasks s ! i) \<noteq> Exited"
  from q have none: "step L W s k = None" if "k < length (tasks s)" for k
    using that by (simp add: enabled_empty)
  from inv have sem: "inv_sem s" and mu: "inv_mutex s" and conf: "inv_conf c s"
    by (simp_all add: Inv_def)
  have no_holder: "\<not> holds_permit (tasks s ! k)" if k: "k < length (tasks s)" for k
  proof
    assume h: "holds_permit (tasks s ! k)"
    then have "0 < chan_len (concurrencyChan (crawler s))"
      using sem k filter_member_pos[of k "tasks s" holds_permit] by (simp add: inv_sem_def)
    with h k have "step L W s k \<noteq> None"
      using step_free[OF k, of L W] step_Release[OF k, of L W]
      by (cases "pc (tasks s ! k)") (simp_all add: holds_permit_def)
    with none[OF k] show False by simp
  qed
  have no_crit: "\<not> in_critical (tasks s ! k)" if k: "k < length (tasks s)" for k
  proof
    assume "in_critical (tasks s ! k)"
    with k have "step L W s k \<noteq> None"
      using step_free[OF k, of L W] by (cases "pc (tasks s ! k)") (simp_all add: in_critical_def)
    with none[OF k] show False by simp
  qed
  have free: "\<not> visitedMutex (crawler s)"
  proof
    assume "visitedMutex (crawler s)"
    with mu have "0 < length (filter in_critical (tasks s))" by (simp add: inv_mutex_def)
    then obtain k where "k < length (tasks s)" "in_critical (tasks s ! k)"
      using filter_nonempty_index[of in_critical "tasks s"] by auto
    with no_crit show False by simp
  qed
  have room: "chan_len (concurrencyChan (crawler s)) < chan_cap (concurrencyChan (crawler s))"
  proof -
    have "\<not> 0 < length (filter holds_permit (tasks s))"
    proof
      assume "0 < length (filter holds_permit (tasks s))"
      then obtain k where "k < length (tasks s)" "holds_permit (tasks s ! k)"
        using filter_nonempty_index[of holds_permit "tasks s"] by auto
      with no_holder show False by simp
    qed
    with sem conf cap show ?thesis by (simp add: inv_sem_def inv_conf_def)
  qed
  have "step L W s i \<noteq> None"
  proof (cases "pc (tasks s ! i) = Lock \<or> pc (tasks s ! i) = Acquire \<or> pc (tasks s ! i) = Release")
    case False
    with i ne show ?thesis using step_free[OF i, of L W] by simp
  next
    case True
    then consider "pc (tasks s ! i) = Lock" | "pc (tasks s ! i) = Acquire" | "pc (tasks s ! i) = Release"
      by blast
    then show ?thesis
    proof cases
      case 1
      with i free show ?thesis by (simp add: step_def Let_def)
    next
      case 2
      with i room show ?thesis by (simp add: step_def Let_def)
    next
      case 3
      with no_holder[OF i] show ?thesis by (simp add: holds_permit_def)
    qed
  qed
  with none[OF i] show False by simp
qed

lemma all_exited_wg:
  assumes "inv_wg s"
  shows "wg (crawler s) = 0 \<longleftrightarrow> (\<forall>i < length (tasks s). pc (tasks s ! i) = Exited)"
proof -
  have "length (filter running (tasks s)) = 0 \<longleftrightarrow> (\<forall>i < length (tasks s). pc (tasks s ! i) = Exited)"
    by (simp add: filter_empty_conv running_def all_set_conv_all_nth)
  with assms show ?thesis by (simp add: inv_wg_def)
qed

lemma wf_crawl_rel: "wf (crawl_rel L W c)"
proof -
  have "crawl_rel L W c \<subseteq> inv_image (mult task_order) (state_measure (maxDepth c))"
    by (auto simp: crawl_rel_def Inv_def intro: step_decreases)
  moreover have "wf (inv_image (mult task_order) (state_measure (maxDepth c)))"
    by (intro wf_inv_image wf_mult wf_task_order)
  ultimately show ?thesis by (rule wf_subset[rotated])
qed

lemma Crawl_first_finishes:
  assumes "Inv L c s"
  shows "\<exists>n s'. Crawl_first L W n s = Some s' \<and> Inv L c s' \<and> enabled L W s' = []"
  using wf_crawl_rel[of L W c] assms
proof (induction s rule: wf_induct_rule)
  case (less s)
  show ?case
  proof (cases "enabled L W s")
    case Nil
    then have "Crawl_first L W 0 s = Some s" by simp
    with less.prems Nil show ?thesis by blast
  next
    case (Cons i rest)
    then have "i \<in> set (enabled L W s)" by simp
    then obtain s1 where s1: "step L W s i = Some s1" by (auto simp: enabled_def)
    then have ss: "sched_step L W i s = s1" by (simp add: sched_step_def)
    have "(s1, s) \<in> crawl_rel L W c" using s1 less.prems by (auto simp: crawl_rel_def)
    moreover have "Inv L c s1" using less.prems s1 by (rule Inv_step)
    ultimately obtain n s' where
      "Crawl_first L W n s1 = Some s'" "Inv L c s'" "enabled L W s' = []"
      using less.IH by blast
    then have "Crawl_first L W (Suc n) s = Some s' \<and> Inv L c s' \<and> enabled L W s' = []"
      using Cons ss by simp
    then show ?thesis by blast
  qed
qed

subsection \<open>The goroutines do not disturb each other\<close>

lemma step_frame:
  assumes "j < length (tasks s)" "length (tasks s1) = length (tasks s)"
    "tasks s1 ! j = tasks s ! j" "crawler s1 = crawler s" "files s1 = files s"
  shows "map_option (on_other s j) (step L W s1 j) = map_option (on_other s j) (step L W s j)"
proof (cases "pc (tasks s ! j)")
  case (Spawn links)
  with assms show ?thesis
    by (cases links) (simp_all add: step_def Let_def on_other_def goto_def nth_append)
next
  case (Save body)
  with assms show ?thesis
    by (cases "savePage L W (crawler s) (pageURL (tasks s ! j)) body (files s)")
       (simp add: step_def Let_def on_other_def goto_def)
next
  case Fetch
  with assms show ?thesis
    by (cases "http_Get L W (pageURL (tasks s ! j))")
       (simp_all add: step_def Let_def on_other_def goto_def)
qed (use assms in \<open>simp_all add: step_def Let_def on_other_def goto_def\<close>)

lemma winding_down_step:
  assumes "step L W s j = Some s'" "i < length (tasks s)" "winding_down (tasks s ! i)"
  shows "i < length (tasks s') \<and> winding_down (tasks s' ! i)"
  using assms(1)
  by (cases rule: step_cases)
     (use assms(2,3) in \<open>auto simp add: winding_down_def nth_list_update nth_append\<close>)

lemma winding_down_run:
  "i < length (tasks s) \<Longrightarrow> winding_down (tasks s ! i) \<Longrightarrow>
   i < length (tasks (run L W sched s)) \<and> winding_down (tasks (run L W sched s) ! i)"
  unfolding run_def
proof (induction sched arbitrary: s)
  case Nil
  then show ?case by simp
next
  case (Cons j sched)
  have "i < length (tasks (sched_step L W j s)) \<and> winding_down (tasks (sched_step L W j s) ! i)"
    using Cons.prems winding_down_step[of L W s j _ i]
    by (cases "step L W s j") (simp_all add: sched_step_def)
  then show ?case using Cons.IH by simp
qed

text \<open>
  The capacity matters: with \<open>maxConcurrency = 0\<close> the channel is unbuffered, the send of the
  seed's goroutine never finds a receiver, and the run is stuck with the counter at one.
\<close>

lemma capacity_zero_stuck:
  "NewCrawler go_lib ''https://site.com/'' 2 0 = Inr (site_crawler 2 0) \<and>
   enabled go_lib site_web
     (run go_lib site_web [0, 0, 0, 0, 0] (Crawl_init go_lib (site_crawler 2 0))) = [] \<and>
   map pc (tasks (run go_lib site_web [0, 0, 0, 0, 0] (Crawl_init go_lib (site_crawler 2 0)))) = [Acquire] \<and>
   wg (crawler (run go_lib site_web [0, 0, 0, 0, 0] (Crawl_init go_lib (site_crawler 2 0)))) = 1"
proof -
  have "NewCrawler go_lib ''https://site.com/'' 2 0 = Inr (site_crawler 2 0)"
    using NewCrawler_site(1)[of 0 2] by simp
  moreover have "enabled go_lib site_web
     (run go_lib site_web [0, 0, 0, 0, 0] (Crawl_init go_lib (site_crawler 2 0))) = []"
    "map pc (tasks (run go_lib site_web [0, 0, 0, 0, 0] (Crawl_init go_lib (site_crawler 2 0)))) = [Acquire]"
    "wg (crawler (run go_lib site_web [0, 0, 0, 0, 0] (Crawl_init go_lib (site_crawler 2 0)))) = 1"
    by code_simp+
  ultimately show ?thesis by simp
qed

subsection \<open>The body after savePage\<close>

lemma savePage_drains:
  "url_Parse L page \<noteq> None \<Longrightarrow> savePage L W c page body fs = (err, body', fs') \<Longrightarrow> unread body' = []"
  by (auto simp: savePage_def io_ReadAll_def Let_def split: option.splits if_splits)

lemma inv_body_step:
  assumes "inv_body L s" and "step L W s i = Some s'"
  shows "inv_body L s'"
  using assms(2)
proof (cases rule: step_cases)
  case (FetchOk body)
  then have "url_Parse L (pageURL (tasks s ! i)) \<noteq> None"
    by (auto simp: http_Get_def split: option.splits)
  with assms(1) FetchOk show ?thesis
    by (auto simp add: inv_body_def nth_list_update)
next
  case (Save body err body' fs)
  with assms(1) have "url_Parse L (pageURL (tasks s ! i)) \<noteq> None"
    by (simp add: inv_body_def)
  then have "unread body' = []" using Save(3) by (rule savePage_drains)
  with assms(1) Save show ?thesis
    by (auto simp add: inv_body_def nth_list_update)
next
  case SpawnValid
  with assms(1) show ?thesis
    by (auto simp add: inv_body_def nth_list_update nth_append less_Suc_eq)
qed (use assms(1) in \<open>auto simp add: inv_body_def nth_list_update\<close>)

lemma inv_body_run: "inv_body L s \<Longrightarrow> inv_body L (run L W sched s)"
  unfolding run_def
proof (induction sched arbitrary: s)
  case Nil
  then show ?case by simp
next
  case (Cons i sched)
  have "inv_body L (sched_step L W i s)"
    using Cons.prems by (cases "step L W s i") (simp_all add: sched_step_def inv_body_step)
  then show ?case using Cons.IH by simp
qed

lemma inv_body_init: "inv_body L (Crawl_init L c)"
  by (simp add: inv_body_def Crawl_init_def)

subsection \<open>Keys have no trailing slash\<close>

lemma TrimRight_trimmed: "trimmed (TrimRight s ''/'')"
proof -
  let ?d = "dropWhile (\<lambda>c. c \<in> set ''/'') (rev s)"
  have "?d = [] \<or> hd ?d \<noteq> CHR ''/''"
    using hd_dropWhile[of "\<lambda>c. c \<in> set ''/''" "rev s"] by auto
  then show ?thesis
    by (auto simp: trimmed_def TrimRight_def last_rev)
qed

lemma extract_attrs_trimmed:
  "\<forall>k \<in> set links. trimmed k \<Longrightarrow> \<forall>k \<in> set (extract_attrs L c attrs links). trimmed k"
  by (induction attrs) (auto simp: map_put_def Let_def TrimRight_trimmed split: option.splits)

lemma fold_preserves:
  "(\<And>x acc. x \<in> set xs \<Longrightarrow> Q acc \<Longrightarrow> Q (f x acc)) \<Longrightarrow> Q a \<Longrightarrow> Q (fold f xs a)"
  by (induction xs arbitrary: a) simp_all

lemma extract_node_trimmed:
  "\<forall>k \<in> set links. trimmed k \<Longrightarrow> \<forall>k \<in> set (extract_node L c n links). trimmed k"
proof (induction L c n links rule: extract_node.induct)
  case (1 L c ty data attrs kids links)
  let ?start = "if ty = ElementNode \<and> data = ''a'' then extract_attrs L c attrs links else links"
  have start: "\<forall>k \<in> set ?start. trimmed k"
    using "1.prems" extract_attrs_trimmed by simp
  have "\<forall>k \<in> set (fold (extract_node L c) kids ?start). trimmed k"
    by (rule fold_preserves[where Q = "\<lambda>acc. \<forall>k \<in> set acc. trimmed k"])
       (use "1.IH" start in auto)
  then show ?case by simp
qed

subsection \<open>A run with a parser that finds nothing in the empty document\<close>

text \<open>
  When extraction from an exhausted body yields no link, as it does with a parser that
  finds no anchor in the empty document, the seed's goroutine stays alone and nothing is
  fetched but the seed, once.
\<close>

lemma inv_alone_step:
  assumes "inv_alone s" and "inv_body L s" and "step L W s i = Some s'"
    and empty: "\<forall>cr b page. unread b = [] \<longrightarrow> extractLinks L cr b page = []"
  shows "inv_alone s'"
proof -
  have i: "i = 0" using assms(1) step_Some_index[OF assms(3)] by (simp add: inv_alone_def)
  from assms(3) show ?thesis
  proof (cases rule: step_cases)
    case (Save body err body' fs)
    with assms(2) have "url_Parse L (pageURL (tasks s ! i)) \<noteq> None"
      by (simp add: inv_body_def)
    then have "unread body' = []" using Save(3) by (rule savePage_drains)
    with assms(1) Save i show ?thesis by (simp add: inv_alone_def before_fetch_def)
  next
    case (Extract body)
    with assms(1) i have "unread body = []" by (simp add: inv_alone_def)
    with empty have "extractLinks L (crawler s) body (pageURL (tasks s ! i)) = []" by simp
    with assms(1) Extract i show ?thesis by (simp add: inv_alone_def before_fetch_def)
  next
    case SpawnValid
    with assms(1) i show ?thesis by (simp add: inv_alone_def)
  next
    case SpawnInvalid
    with assms(1) i show ?thesis by (simp add: inv_alone_def)
  qed (use assms(1) i in \<open>simp_all add: inv_alone_def before_fetch_def\<close>)
qed

lemma inv_alone_run:
  assumes empty: "\<forall>cr b page. unread b = [] \<longrightarrow> extractLinks L cr b page = []"
  shows "inv_alone s \<Longrightarrow> inv_body L s \<Longrightarrow> inv_alone (run L W sched s)"
  unfolding run_def
proof (induction sched arbitrary: s)
  case Nil
  then show ?case by simp
next
  case (Cons i sched)
  have "inv_alone (sched_step L W i s) \<and> inv_body L (sched_step L W i s)"
    using Cons.prems inv_alone_step[OF _ _ _ empty, of s W i] inv_body_step[of L s W i]
    by (cases "step L W s i") (simp_all add: sched_step_def)
  then show ?case using Cons.IH by simp
qed

lemma only_one_fetch:
  assumes "\<forall>cr b page. unread b = [] \<longrightarrow> extractLinks L cr b page = []"
  shows "length (tasks (run L W sched (Crawl_init L c))) = 1 \<and>
         length (fetched (run L W sched (Crawl_init L c))) \<le> 1"
proof -
  have "inv_alone (Crawl_init L c)" by (simp add: inv_alone_def Crawl_init_def before_fetch_def)
  then have "inv_alone (run L W sched (Crawl_init L c))"
    using inv_body_init by (rule inv_alone_run[OF assms])
  then show ?thesis by (simp add: inv_alone_def)
qed

lemma go_lib_empty_document:
  "unread b = [] \<Longrightarrow> extractLinks go_lib cr b page = []"
  by (cases b) (simp add: extractLinks_def html_Parse_reader_def go_lib_def html_table_def html_doc_def)

subsection \<open>The keys of the seed and of the links\<close>

lemma key_ok_either: "key_ok seedKey d u \<Longrightarrow> u = seedKey \<or> trimmed u"
  by (simp add: key_ok_def split: if_splits)

lemma extractLinks_trimmed:
  assumes "\<forall>ks. set (map_range L ks) \<subseteq> set ks"
  shows "\<forall>k \<in> set (extractLinks L c body page). trimmed k"
proof (cases "html_Parse_reader L body")
  case None
  then show ?thesis by (simp add: extractLinks_def)
next
  case (Some doc)
  have "\<forall>k \<in> set (extract_node L c doc []). trimmed k"
    using extract_node_trimmed[of "[]" L c doc] by simp
  with assms Some show ?thesis by (auto simp: extractLinks_def)
qed

lemma inv_keys_step:
  assumes inv: "inv_keys seedKey s" and st: "step L W s i = Some s'"
    and mr: "\<forall>ks. set (map_range L ks) \<subseteq> set ks"
  shows "inv_keys seedKey s'"
  using st
proof (cases rule: step_cases)
  case (Extract body)
  have "\<forall>k \<in> set (extractLinks L (crawler s) body (pageURL (tasks s ! i))). trimmed k"
    using mr by (rule extractLinks_trimmed)
  with inv Extract show ?thesis
    by (auto simp add: inv_keys_def nth_list_update)
next
  case (SpawnValid link links)
  from inv SpawnValid(1,2) have l: "trimmed link" "\<forall>k \<in> set links. trimmed k"
    and d: "0 \<le> depth (tasks s ! i)"
    by (auto simp: inv_keys_def)
  then have k: "key_ok seedKey (depth (tasks s ! i) + 1) link" by (simp add: key_ok_def)
  with inv SpawnValid l d show ?thesis
    by (auto simp add: inv_keys_def nth_list_update nth_append less_Suc_eq)
next
  case (SpawnInvalid link links)
  with inv show ?thesis
    by (auto simp add: inv_keys_def nth_list_update)
next
  case Insert
  from inv Insert(1) have "pageURL (tasks s ! i) = seedKey \<or> trimmed (pageURL (tasks s ! i))"
    by (auto simp: inv_keys_def dest: key_ok_either)
  with inv Insert show ?thesis
    by (auto simp add: inv_keys_def nth_list_update)
next
  case CheckSkip
  from inv CheckSkip(1) have "pageURL (tasks s ! i) = seedKey \<or> trimmed (pageURL (tasks s ! i))"
    by (auto simp: inv_keys_def dest: key_ok_either)
  with inv CheckSkip show ?thesis
    by (auto simp add: inv_keys_def nth_list_update)
next
  case CheckOk
  from inv CheckOk(1) have "pageURL (tasks s ! i) = seedKey \<or> trimmed (pageURL (tasks s ! i))"
    by (auto simp: inv_keys_def dest: key_ok_either)
  with inv CheckOk show ?thesis
    by (auto simp add: inv_keys_def nth_list_update)
next
  case FetchErr
  from inv FetchErr(1) have "key_ok seedKey (depth (tasks s ! i)) (pageURL (tasks s ! i))"
    by (simp add: inv_keys_def)
  with inv FetchErr show ?thesis
    by (auto simp add: inv_keys_def nth_list_update)
next
  case (FetchOk body)
  from inv FetchOk(1) have "key_ok seedKey (depth (tasks s ! i)) (pageURL (tasks s ! i))"
    by (simp add: inv_keys_def)
  with inv FetchOk show ?thesis
    by (auto simp add: inv_keys_def nth_list_update)
qed (use inv in \<open>auto simp add: inv_keys_def nth_list_update\<close>)

lemma inv_keys_run:
  assumes mr: "\<forall>ks. set (map_range L ks) \<subseteq> set ks"
  shows "inv_keys seedKey s \<Longrightarrow> inv_keys seedKey (run L W sched s)"
  unfolding run_def
proof (induction sched arbitrary: s)
  case Nil
  then show ?case by simp
next
  case (Cons i sched)
  have "inv_keys seedKey (sched_step L W i s)"
    using Cons.prems inv_keys_step[OF _ _ mr, of seedKey s W i]
    by (cases "step L W s i") (simp_all add: sched_step_def)
  then show ?case using Cons.IH by simp
qed

lemma inv_keys_init:
  assumes "NewCrawler L seed md mc = Inr c"
  shows "inv_keys (url_String L (baseURL c)) (Crawl_init L c)"
proof -
  from NewCrawler_Inr[OF assms] have "visited c = Map.empty" by auto
  then show ?thesis by (simp add: inv_keys_def Crawl_init_def key_ok_def)
qed

lemma seed_enters_visited:
  assumes "NewCrawler L seed md mc = Inr c" and "0 \<le> md"
  shows "visited (crawler (run L W [0, 0, 0, 0] (Crawl_init L c))) =
           [url_String L (baseURL c) \<mapsto> True] \<and>
         map pc (tasks (run L W [0, 0, 0, 0] (Crawl_init L c))) = [UnlockOk]"
proof -
  from NewCrawler_Inr[OF assms(1)] obtain root where
    c: "c = \<lparr>baseURL = root, visited = Map.empty, visitedMutex = False, maxDepth = md,
          outputDirectory = filepath_Join L [''crawl_output'', url_Hostname L root], wg = 0,
          concurrencyChan = \<lparr>chan_cap = nat mc, chan_len = 0\<rparr>\<rparr>"
    by blast
  show ?thesis
    using assms(2)
    by (simp add: c run_def sched_step_def step_def Crawl_init_def goto_def Let_def)
qed

lemma seed_is_fetched:
  assumes "NewCrawler L seed md mc = Inr c" and "0 \<le> md" and "0 < mc"
  shows "fetched (run L W [0, 0, 0, 0, 0, 0, 0] (Crawl_init L c)) = [(url_String L (baseURL c), 0)]"
proof -
  from NewCrawler_Inr[OF assms(1)] obtain root where
    c: "c = \<lparr>baseURL = root, visited = Map.empty, visitedMutex = False, maxDepth = md,
          outputDirectory = filepath_Join L [''crawl_output'', url_Hostname L root], wg = 0,
          concurrencyChan = \<lparr>chan_cap = nat mc, chan_len = 0\<rparr>\<rparr>"
    by blast
  show ?thesis
    using assms(2,3)
    by (cases "http_Get L W (url_String L root)")
       (simp_all add: c run_def sched_step_def step_def Crawl_init_def goto_def Let_def)
qed

section \<open>The base of link resolution\<close>

text \<open>
  C1 does not hold of the code. \<open>extractLinks\<close> takes the URL of the page as its second
  parameter and never reads it: every reference is resolved against \<open>c.baseURL\<close>, the seed.
  On the page \<open>https://site.com/docs/intro\<close> of a crawl seeded with \<open>https://site.com/\<close>, the
  reference \<open>next\<close> becomes \<open>https://site.com/next\<close>; resolved against the page it is
  \<open>https://site.com/docs/next\<close>.
\<close>

theorem extractLinks_resolves_against_seed:
  \<open>extractLinks L c body page = extractLinks L c body page' \<and>
    extractLinks go_lib (site_crawler 2 3) (Body ''<a href="next">n</a>'' False)
      ''https://site.com/docs/intro'' = [''https://site.com/next''] \<and>
    (case (url_Parse go_lib ''https://site.com/docs/intro'', url_Parse go_lib ''next'') of
       (Some p, Some link) \<Rightarrow> Some (TrimRight (url_String go_lib (url_ResolveReference go_lib p link)) ''/'')
     | _ \<Rightarrow> None) = Some ''https://site.com/docs/next''\<close>
proof (intro conjI)
  show "extractLinks L c body page = extractLinks L c body page'"
    by (simp add: extractLinks_def)
qed code_simp+

section \<open>What link extraction reads\<close>

text \<open>
  C2 does not hold of the code. \<open>savePage\<close> reads the response body to its end, and
  \<open>crawlPage\<close> then hands the same, exhausted, reader to \<open>extractLinks\<close>. In every state of
  every run, whatever the library and the network, a goroutine about to extract links
  holds a body with nothing left to read. For the seed page \<open><a href="/">home</a>\<close> of
  \<open>https://site.com/\<close>: the page is stored with its anchor, extraction returns no link, and
  extraction from the body as fetched would have returned the admissible link
  \<open>https://site.com\<close>.
\<close>

theorem extraction_reads_exhausted_body:
  \<open>(NewCrawler L seed md mc = Inr c \<and> s = run L W sched (Crawl_init L c) \<and>
      i < length (tasks s) \<and> pc (tasks s ! i) = Extract b \<longrightarrow> unread b = []) \<and>
    map pc (tasks (run go_lib site_web (replicate 8 0) (Crawl_init go_lib (site_crawler 2 3)))) =
      [Extract (Body [] False)] \<and>
    files (run go_lib site_web (replicate 8 0) (Crawl_init go_lib (site_crawler 2 3)))
      ''crawl_output/site.com/index.html'' = Some ''<a href="/">home</a>'' \<and>
    map pc (tasks (run go_lib site_web (replicate 9 0) (Crawl_init go_lib (site_crawler 2 3)))) =
      [Spawn []] \<and>
    filter (isValidLink go_lib (site_crawler 2 3))
      (extractLinks go_lib (site_crawler 2 3) (Body ''<a href="/">home</a>'' False) ''https://site.com/'') =
      [''https://site.com'']\<close>
proof (intro conjI impI)
  assume "NewCrawler L seed md mc = Inr c \<and> s = run L W sched (Crawl_init L c) \<and>
      i < length (tasks s) \<and> pc (tasks s ! i) = Extract b"
  then have s: "s = run L W sched (Crawl_init L c)" and i: "i < length (tasks s)"
    and p: "pc (tasks s ! i) = Extract b"
    by blast+
  have "inv_body L s" unfolding s by (rule inv_body_run) (rule inv_body_init)
  with i p show "unread b = []" by (simp add: inv_body_def)
qed code_simp+

theorem extraction_reads_exhausted_body_witness:
  "NewCrawler go_lib ''https://site.com/'' 2 3 = Inr (site_crawler 2 3) \<and>
   pc (tasks (run go_lib site_web (replicate 8 0) (Crawl_init go_lib (site_crawler 2 3))) ! 0) =
     Extract (Body [] False) \<and>
   unread (Body [] False) = []"
proof -
  have h: "NewCrawler go_lib ''https://site.com/'' 2 3 = Inr (site_crawler 2 3)"
    using NewCrawler_site(1)[of 3 2] by simp
  have v: "0 < length (tasks (run go_lib site_web (replicate 8 0) (Crawl_init go_lib (site_crawler 2 3))))"
    "pc (tasks (run go_lib site_web (replicate 8 0) (Crawl_init go_lib (site_crawler 2 3))) ! 0) =
     Extract (Body [] False)"
    by code_simp+
  from extraction_reads_exhausted_body[where L = go_lib and seed = "''https://site.com/''" and md = 2
      and mc = 3 and c = "site_crawler 2 3" and W = site_web and sched = "replicate 8 0" and i = 0
      and b = "Body [] False"] h v
  show ?thesis by simp
qed

section \<open>The visited set\<close>

text \<open>
  C3. The test-and-set of \<open>c.visited\<close> under \<open>visitedMutex\<close> is atomic. In every state \<open>s\<close> of
  every run: for any target \<open>T\<close> at most one test has answered that \<open>T\<close> was absent; at most
  one goroutine is between \<open>Lock\<close> and \<open>Unlock\<close>; the test answers true exactly when the target
  is absent at that moment; the goroutine that got true finds the target still absent when
  it inserts it; and a target once present stays present in whatever follows.
\<close>

theorem claim_at_most_once:
  assumes "NewCrawler L seed md mc = Inr c" and "s = run L W sched (Crawl_init L c)"
  shows "length (filter (\<lambda>e. e = (T, True)) (claims s)) \<le> 1 \<and>
         length (filter in_critical (tasks s)) \<le> 1 \<and>
         (\<forall>i < length (tasks s).
            (pc (tasks s ! i) = Check \<longrightarrow>
               step L W s i =
                 Some ((goto s i (if visited (crawler s) (pageURL (tasks s ! i)) = Some True
                                  then UnlockSkip else Insert))
                         \<lparr>claims := claims s @
                            [(pageURL (tasks s ! i),
                              visited (crawler s) (pageURL (tasks s ! i)) \<noteq> Some True)]\<rparr>)) \<and>
            (pc (tasks s ! i) = Insert \<longrightarrow>
               visited (crawler s) (pageURL (tasks s ! i)) \<noteq> Some True \<and>
               step L W s i =
                 Some ((goto s i UnlockOk)
                         \<lparr>crawler := (crawler s)
                            \<lparr>visited := (visited (crawler s))(pageURL (tasks s ! i) \<mapsto> True)\<rparr>\<rparr>))) \<and>
         (\<forall>u. visited (crawler s) u = Some True \<longrightarrow>
              visited (crawler (run L W later s)) u = Some True)"
proof -
  have inv: "Inv L c s" unfolding assms(2) using assms(1) by (rule Inv_reach)
  then have cl: "inv_claims s" and mu: "inv_mutex s" by (simp_all add: Inv_def)
  have "distinct (won s)" using cl by (simp add: inv_claims_def)
  then have "length (filter (\<lambda>u. u = T) (won s)) \<le> 1" by (rule distinct_filter_eq_le1)
  then have one: "length (filter (\<lambda>e. e = (T, True)) (claims s)) \<le> 1"
    by (simp add: won_count won_def)
  have crit: "length (filter in_critical (tasks s)) \<le> 1"
    using mu by (simp add: inv_mutex_def)
  have steps: "(pc (tasks s ! i) = Check \<longrightarrow>
               step L W s i =
                 Some ((goto s i (if visited (crawler s) (pageURL (tasks s ! i)) = Some True
                                  then UnlockSkip else Insert))
                         \<lparr>claims := claims s @
                            [(pageURL (tasks s ! i),
                              visited (crawler s) (pageURL (tasks s ! i)) \<noteq> Some True)]\<rparr>)) \<and>
            (pc (tasks s ! i) = Insert \<longrightarrow>
               visited (crawler s) (pageURL (tasks s ! i)) \<noteq> Some True \<and>
               step L W s i =
                 Some ((goto s i UnlockOk)
                         \<lparr>crawler := (crawler s)
                            \<lparr>visited := (visited (crawler s))(pageURL (tasks s ! i) \<mapsto> True)\<rparr>\<rparr>))"
    if i: "i < length (tasks s)" for i
  proof (intro conjI impI)
    assume "pc (tasks s ! i) = Check"
    with i show "step L W s i =
                 Some ((goto s i (if visited (crawler s) (pageURL (tasks s ! i)) = Some True
                                  then UnlockSkip else Insert))
                         \<lparr>claims := claims s @
                            [(pageURL (tasks s ! i),
                              visited (crawler s) (pageURL (tasks s ! i)) \<noteq> Some True)]\<rparr>)"
      by (simp add: step_def Let_def)
  next
    assume "pc (tasks s ! i) = Insert"
    with cl i show "visited (crawler s) (pageURL (tasks s ! i)) \<noteq> Some True"
      by (simp add: inv_claims_def)
  next
    assume "pc (tasks s ! i) = Insert"
    with i show "step L W s i =
                 Some ((goto s i UnlockOk)
                         \<lparr>crawler := (crawler s)
                            \<lparr>visited := (visited (crawler s))(pageURL (tasks s ! i) \<mapsto> True)\<rparr>\<rparr>)"
      by (simp add: step_def Let_def)
  qed
  show ?thesis using one crit steps visited_run_mono by blast
qed

text \<open>
  A race for one key: the seed's goroutine and its second child have returned, and the
  first child (goroutine 1, depth 1) and a grandchild (goroutine 3, depth 2) both want
  \<open>https://site.com/a\<close>. Goroutine 3 takes the mutex, goroutine 1 waits for it, and only
  goroutine 3 finds the key absent.
\<close>

theorem claim_at_most_once_witness:
  "NewCrawler fanout_lib ''https://site.com/'' 2 3 = Inr (site_crawler 2 3) \<and>
   map (\<lambda>t. (pageURL t, depth t, pc t))
     (tasks (run fanout_lib site_web (replicate 16 0 @ replicate 16 2 @ [3, 3, 1, 1])
        (Crawl_init fanout_lib (site_crawler 2 3)))) =
     [(''https://site.com/'', 0, Exited), (''https://site.com/a'', 1, Lock),
      (''https://site.com'', 1, Exited), (''https://site.com/a'', 2, Check),
      (''https://site.com'', 2, Start)] \<and>
   map (\<lambda>t. (pageURL t, depth t, pc t))
     (tasks (run fanout_lib site_web (replicate 16 0 @ replicate 16 2 @ [3, 3, 1, 1, 3, 3, 3, 1, 1, 1])
        (Crawl_init fanout_lib (site_crawler 2 3)))) =
     [(''https://site.com/'', 0, Exited), (''https://site.com/a'', 1, WgDone),
      (''https://site.com'', 1, Exited), (''https://site.com/a'', 2, Acquire),
      (''https://site.com'', 2, Start)] \<and>
   claims (run fanout_lib site_web (replicate 16 0 @ replicate 16 2 @ [3, 3, 1, 1, 3, 3, 3, 1, 1, 1])
        (Crawl_init fanout_lib (site_crawler 2 3))) =
     [(''https://site.com/'', True), (''https://site.com'', True),
      (''https://site.com/a'', True), (''https://site.com/a'', False)] \<and>
   length (filter (\<lambda>e. e = (''https://site.com/a'', True))
     (claims (run fanout_lib site_web (replicate 16 0 @ replicate 16 2 @ [3, 3, 1, 1, 3, 3, 3, 1, 1, 1])
        (Crawl_init fanout_lib (site_crawler 2 3))))) \<le> 1"
proof -
  have h: "NewCrawler fanout_lib ''https://site.com/'' 2 3 = Inr (site_crawler 2 3)"
    using NewCrawler_site(2)[of 3 2] by simp
  have v: "map (\<lambda>t. (pageURL t, depth t, pc t))
     (tasks (run fanout_lib site_web (replicate 16 0 @ replicate 16 2 @ [3, 3, 1, 1])
        (Crawl_init fanout_lib (site_crawler 2 3)))) =
     [(''https://site.com/'', 0, Exited), (''https://site.com/a'', 1, Lock),
      (''https://site.com'', 1, Exited), (''https://site.com/a'', 2, Check),
      (''https://site.com'', 2, Start)]"
    "map (\<lambda>t. (pageURL t, depth t, pc t))
     (tasks (run fanout_lib site_web (replicate 16 0 @ replicate 16 2 @ [3, 3, 1, 1, 3, 3, 3, 1, 1, 1])
        (Crawl_init fanout_lib (site_crawler 2 3)))) =
     [(''https://site.com/'', 0, Exited), (''https://site.com/a'', 1, WgDone),
      (''https://site.com'', 1, Exited), (''https://site.com/a'', 2, Acquire),
      (''https://site.com'', 2, Start)]"
    "claims (run fanout_lib site_web (replicate 16 0 @ replicate 16 2 @ [3, 3, 1, 1, 3, 3, 3, 1, 1, 1])
        (Crawl_init fanout_lib (site_crawler 2 3))) =
     [(''https://site.com/'', True), (''https://site.com'', True),
      (''https://site.com/a'', True), (''https://site.com/a'', False)]"
    by code_simp+
  from claim_at_most_once[OF h refl, where W = site_web
      and sched = "replicate 16 0 @ replicate 16 2 @ [3, 3, 1, 1, 3, 3, 3, 1, 1, 1]"
      and T = "''https://site.com/a''" and later = "[]"] h v
  show ?thesis by simp
qed

section \<open>The depth bound\<close>

text \<open>
  C4. In every state of every run, every call of \<open>http.Get\<close> was made at a depth of at most
  \<open>maxDepth\<close>; a goroutine whose depth exceeds \<open>maxDepth\<close> goes from its start straight to
  \<open>wg.Done\<close> and is never anywhere else; and with \<open>maxDepth = 0\<close> nothing but the seed is
  fetched.
\<close>

theorem depth_bound:
  assumes "NewCrawler L seed md mc = Inr c" and "s = run L W sched (Crawl_init L c)"
  shows "(\<forall>(u, d) \<in> set (fetched s). d \<le> md) \<and>
         (\<forall>i < length (tasks s). md < depth (tasks s ! i) \<longrightarrow>
            (pc (tasks s ! i) = Start \<or> pc (tasks s ! i) = WgDone \<or> pc (tasks s ! i) = Exited) \<and>
            (pc (tasks s ! i) = Start \<longrightarrow> step L W s i = Some (goto s i WgDone))) \<and>
         (md = 0 \<longrightarrow> set (map fst (fetched s)) \<subseteq> {url_String L (baseURL c)})"
proof -
  from NewCrawler_Inr[OF assms(1)] have md: "maxDepth c = md" by auto
  have inv: "Inv L c s" unfolding assms(2) using assms(1) by (rule Inv_reach)
  then have d: "inv_depth (url_String L (baseURL c)) md s" by (simp add: Inv_def md)
  have a: "\<forall>(u, d) \<in> set (fetched s). d \<le> md" using d by (auto simp: inv_depth_def)
  have b: "(pc (tasks s ! i) = Start \<or> pc (tasks s ! i) = WgDone \<or> pc (tasks s ! i) = Exited) \<and>
            (pc (tasks s ! i) = Start \<longrightarrow> step L W s i = Some (goto s i WgDone))"
    if "i < length (tasks s)" "md < depth (tasks s ! i)" for i
  proof -
    from d that have "\<not> past_check (tasks s ! i)" and "maxDepth (crawler s) = md"
      by (auto simp: inv_depth_def)
    with that show ?thesis by (auto simp: past_check_def step_def Let_def)
  qed
  have c: "set (map fst (fetched s)) \<subseteq> {url_String L (baseURL c)}" if "md = 0"
    using d that by (fastforce simp: inv_depth_def)
  show ?thesis using a b c by blast
qed

theorem depth_bound_witness:
  "NewCrawler fanout_lib ''https://site.com/'' 0 3 = Inr (site_crawler 0 3) \<and>
   fetched (run fanout_lib site_web (each_in_turn 3) (Crawl_init fanout_lib (site_crawler 0 3))) =
     [(''https://site.com/'', 0)] \<and>
   map (\<lambda>t. (pageURL t, depth t, pc t))
     (tasks (run fanout_lib site_web (each_in_turn 3) (Crawl_init fanout_lib (site_crawler 0 3)))) =
     [(''https://site.com/'', 0, Exited), (''https://site.com/a'', 1, Exited),
      (''https://site.com'', 1, Exited)] \<and>
   set (map fst (fetched (run fanout_lib site_web (each_in_turn 3)
      (Crawl_init fanout_lib (site_crawler 0 3))))) \<subseteq> {url_String fanout_lib (baseURL (site_crawler 0 3))}"
proof -
  have h: "NewCrawler fanout_lib ''https://site.com/'' 0 3 = Inr (site_crawler 0 3)"
    using NewCrawler_site(2)[of 3 0] by simp
  have v: "fetched (run fanout_lib site_web (each_in_turn 3) (Crawl_init fanout_lib (site_crawler 0 3))) =
     [(''https://site.com/'', 0)]"
    "map (\<lambda>t. (pageURL t, depth t, pc t))
     (tasks (run fanout_lib site_web (each_in_turn 3) (Crawl_init fanout_lib (site_crawler 0 3)))) =
     [(''https://site.com/'', 0, Exited), (''https://site.com/a'', 1, Exited),
      (''https://site.com'', 1, Exited)]"
    by code_simp+
  from depth_bound[OF h refl, where W = site_web and sched = "each_in_turn 3"] h v
  show ?thesis by simp
qed

section \<open>The concurrency bound\<close>

text \<open>
  C5. A goroutine holds a permit from its send on \<open>concurrencyChan\<close> to the deferred receive.
  In every state of every run the channel holds exactly one element per goroutine that
  holds a permit (none is leaked, none is returned twice), the goroutines inside \<open>http.Get\<close>
  are among them, and they are at most \<open>maxConcurrency\<close>.
\<close>

theorem concurrency_bound:
  assumes "NewCrawler L seed md mc = Inr c"
  shows "chan_len (concurrencyChan (crawler (run L W sched (Crawl_init L c)))) =
           length (filter holds_permit (tasks (run L W sched (Crawl_init L c)))) \<and>
         length (filter (\<lambda>t. pc t = Fetch) (tasks (run L W sched (Crawl_init L c))))
           \<le> length (filter holds_permit (tasks (run L W sched (Crawl_init L c)))) \<and>
         length (filter holds_permit (tasks (run L W sched (Crawl_init L c)))) \<le> nat mc"
proof -
  let ?s = "run L W sched (Crawl_init L c)"
  from NewCrawler_Inr[OF assms] have cap: "chan_cap (concurrencyChan c) = nat mc" by auto
  have inv: "Inv L c ?s" using assms by (rule Inv_reach)
  then have "inv_sem ?s" and "inv_conf c ?s" by (simp_all add: Inv_def)
  then have a: "chan_len (concurrencyChan (crawler ?s)) = length (filter holds_permit (tasks ?s))"
    and b: "length (filter holds_permit (tasks ?s)) \<le> nat mc"
    using cap by (simp_all add: inv_sem_def inv_conf_def)
  have "length (filter (\<lambda>t. pc t = Fetch) (tasks ?s)) \<le> length (filter holds_permit (tasks ?s))"
    by (rule length_filter_mono) (simp add: holds_permit_def)
  with a b show ?thesis by simp
qed

theorem concurrency_bound_witness:
  "NewCrawler fanout_lib ''https://site.com/'' 2 1 = Inr (site_crawler 2 1) \<and>
   map pc (tasks (run fanout_lib site_web [0,0,0,0,0,0,0,0,0,0,0,1,2,1,2,1,2,1,2,1,2,1,2]
      (Crawl_init fanout_lib (site_crawler 2 1)))) = [Spawn [], Acquire, Insert] \<and>
   chan_len (concurrencyChan (crawler (run fanout_lib site_web [0,0,0,0,0,0,0,0,0,0,0,1,2,1,2,1,2,1,2,1,2,1,2]
      (Crawl_init fanout_lib (site_crawler 2 1))))) = 1 \<and>
   length (filter holds_permit (tasks (run fanout_lib site_web [0,0,0,0,0,0,0,0,0,0,0,1,2,1,2,1,2,1,2,1,2,1,2]
      (Crawl_init fanout_lib (site_crawler 2 1))))) = 1"
proof -
  let ?s = "run fanout_lib site_web [0,0,0,0,0,0,0,0,0,0,0,1,2,1,2,1,2,1,2,1,2,1,2]
      (Crawl_init fanout_lib (site_crawler 2 1))"
  have h: "NewCrawler fanout_lib ''https://site.com/'' 2 1 = Inr (site_crawler 2 1)"
    using NewCrawler_site(2)[of 1 2] by simp
  have v: "map pc (tasks ?s) = [Spawn [], Acquire, Insert]"
    and l: "chan_len (concurrencyChan (crawler ?s)) = 1"
    by code_simp+
  from concurrency_bound[OF h, of site_web "[0,0,0,0,0,0,0,0,0,0,0,1,2,1,2,1,2,1,2,1,2,1,2]"] h v l
  show ?thesis by simp
qed

section \<open>Termination\<close>

text \<open>
  C6. With a capacity of at least one, every run is finite and ends with the wait group at
  zero: no schedule has infinitely many actions (the relation from a state of a run to its
  successors is well-founded), a state of a run in which no goroutine can act has counter
  zero, the counter is zero only when every goroutine has returned, and the scheduler
  \<open>Crawl_first\<close> reaches such a state. The graph of links may be anything, cyclic or not.
\<close>

theorem crawl_terminates:
  assumes "NewCrawler L seed md mc = Inr c" and "0 < mc"
    and "s = run L W sched (Crawl_init L c)"
  shows "wf {(after, before). (\<exists>sched. before = run L W sched (Crawl_init L c)) \<and>
              (\<exists>i. step L W before i = Some after)} \<and>
         (enabled L W s = [] \<longrightarrow> wg (crawler s) = 0) \<and>
         (wg (crawler s) = 0 \<longleftrightarrow> (\<forall>i < length (tasks s). pc (tasks s ! i) = Exited)) \<and>
         (\<exists>n s'. Crawl_first L W n (Crawl_init L c) = Some s' \<and> wg (crawler s') = 0)"
proof -
  from NewCrawler_Inr[OF assms(1)] assms(2) have cap: "0 < chan_cap (concurrencyChan c)" by auto
  have inv: "Inv L c s" unfolding assms(3) using assms(1) by (rule Inv_reach)
  have "{(after, before). (\<exists>sched. before = run L W sched (Crawl_init L c)) \<and>
              (\<exists>i. step L W before i = Some after)}
          \<subseteq> crawl_rel L W c"
    using Inv_reach[OF assms(1)] by (auto simp: crawl_rel_def)
  then have 1: "wf {(after, before). (\<exists>sched. before = run L W sched (Crawl_init L c)) \<and>
              (\<exists>i. step L W before i = Some after)}"
    using wf_crawl_rel by (rule wf_subset[rotated])
  have 3: "wg (crawler s) = 0 \<longleftrightarrow> (\<forall>i < length (tasks s). pc (tasks s ! i) = Exited)"
    using inv by (intro all_exited_wg) (simp add: Inv_def)
  have 2: "wg (crawler s) = 0" if "enabled L W s = []"
    using quiescent_all_exited[OF inv cap that] 3 by simp
  from Crawl_first_finishes[OF Inv_init[OF assms(1)], of W] obtain n s' where
    f: "Crawl_first L W n (Crawl_init L c) = Some s'" "Inv L c s'" "enabled L W s' = []"
    by blast
  from f(2) have "inv_wg s'" by (simp add: Inv_def)
  with quiescent_all_exited[OF f(2) cap f(3)] have "wg (crawler s') = 0"
    by (simp add: all_exited_wg)
  with f(1) have 4: "\<exists>n s'. Crawl_first L W n (Crawl_init L c) = Some s' \<and> wg (crawler s') = 0"
    by blast
  from 1 2 3 4 show ?thesis by blast
qed

theorem crawl_terminates_witness:
  "NewCrawler fanout_lib ''https://site.com/'' 2 3 = Inr (site_crawler 2 3) \<and>
   enabled fanout_lib site_web
     (run fanout_lib site_web (each_in_turn 5) (Crawl_init fanout_lib (site_crawler 2 3))) = [] \<and>
   map pc (tasks (run fanout_lib site_web (each_in_turn 5) (Crawl_init fanout_lib (site_crawler 2 3)))) =
     [Exited, Exited, Exited, Exited, Exited] \<and>
   wg (crawler (run fanout_lib site_web (each_in_turn 5) (Crawl_init fanout_lib (site_crawler 2 3)))) = 0"
proof -
  have h: "NewCrawler fanout_lib ''https://site.com/'' 2 3 = Inr (site_crawler 2 3)"
    using NewCrawler_site(2)[of 3 2] by simp
  have v: "enabled fanout_lib site_web
     (run fanout_lib site_web (each_in_turn 5) (Crawl_init fanout_lib (site_crawler 2 3))) = []"
    "map pc (tasks (run fanout_lib site_web (each_in_turn 5) (Crawl_init fanout_lib (site_crawler 2 3)))) =
     [Exited, Exited, Exited, Exited, Exited]"
    by code_simp+
  from crawl_terminates[OF h _ refl, where W = site_web and sched = "each_in_turn 5"] h v
  show ?thesis by simp
qed

section \<open>The admission filter\<close>

text \<open>
  C7. \<open>isValidLink\<close> admits a target exactly when it parses, its host name (the host without
  the port) is the host name of the seed, its path has no \<open>@\<close>, and its scheme starts with
  \<open>http\<close>. Of the four links \<open>https://site.com/a\<close>, \<open>https://other.com/b\<close>,
  \<open>mailto:x@site.com\<close> and \<open>ftp://site.com/c\<close>, a crawler of \<open>site.com\<close> admits the first only.
  A subdomain is not admitted; the same host name on another port is.
\<close>

theorem isValidLink_admission:
  "(isValidLink L c target \<longleftrightarrow>
      (\<exists>u. url_Parse L target = Some u \<and>
           url_Hostname L u = url_Hostname L (baseURL c) \<and>
           CHR ''@'' \<notin> set (Path u) \<and>
           (\<exists>r. Scheme u = ''http'' @ r))) \<and>
   (case NewCrawler go_lib ''https://site.com'' 2 10 of
      Inl e \<Rightarrow> []
    | Inr c \<Rightarrow>
        filter (isValidLink go_lib c)
          [''https://site.com/a'', ''https://other.com/b'', ''mailto:x@site.com'', ''ftp://site.com/c''])
     = [''https://site.com/a''] \<and>
   (case NewCrawler go_lib ''https://site.com'' 2 10 of
      Inl e \<Rightarrow> []
    | Inr c \<Rightarrow>
        filter (isValidLink go_lib c)
          [''https://www.site.com/a'', ''https://site.com:8443/a'', ''http://site.com/x@y'', ''httpx://site.com/a''])
     = [''https://site.com:8443/a'', ''httpx://site.com/a'']"
proof (intro conjI)
  show "isValidLink L c target \<longleftrightarrow>
      (\<exists>u. url_Parse L target = Some u \<and>
           url_Hostname L u = url_Hostname L (baseURL c) \<and>
           CHR ''@'' \<notin> set (Path u) \<and>
           (\<exists>r. Scheme u = ''http'' @ r))"
    by (cases "url_Parse L target") (simp_all add: isValidLink_def Contains_single HasPrefix_append)
qed code_simp+

section \<open>A failed fetch\<close>

text \<open>
  C8. Let goroutine \<open>i\<close> be inside \<open>http.Get\<close> in a state \<open>s\<close> of a run, and let the request
  fail. Its next action prints the error and changes nothing else: no goroutine is started,
  no file is written, the shared crawler is as before. From then on, in every continuation,
  the goroutine is only ever at its two deferred calls or returned, and two more actions of
  its own bring it there. Every other goroutine is untouched, and its next action has
  exactly the effect it would have had without the failure. The run still ends with every
  goroutine returned and the counter at zero.
\<close>

theorem fetch_failure_contained:
  assumes "NewCrawler L seed md mc = Inr c" and "0 < mc"
    and "s = run L W sched (Crawl_init L c)"
    and "i < length (tasks s)" and "pc (tasks s ! i) = Fetch"
    and "http_Get L W (pageURL (tasks s ! i)) = None"
    and "s1 = sched_step L W i s"
  shows "printed s1 = printed s @ [ErrorFetching (pageURL (tasks s ! i))] \<and>
         length (tasks s1) = length (tasks s) \<and> files s1 = files s \<and> crawler s1 = crawler s \<and>
         winding_down (tasks (run L W later s1) ! i) \<and>
         pc (tasks (run L W [i, i] s1) ! i) = Exited \<and>
         length (tasks (run L W [i, i] s1)) = length (tasks s) \<and>
         files (run L W [i, i] s1) = files s \<and>
         (\<forall>j < length (tasks s). j \<noteq> i \<longrightarrow>
            tasks s1 ! j = tasks s ! j \<and>
            map_option (on_other s j) (step L W s1 j) = map_option (on_other s j) (step L W s j)) \<and>
         (\<exists>n s'. Crawl_first L W n s1 = Some s' \<and> wg (crawler s') = 0 \<and>
                  (\<forall>k < length (tasks s'). pc (tasks s' ! k) = Exited))"
proof -
  from NewCrawler_Inr[OF assms(1)] assms(2) have cap: "0 < chan_cap (concurrencyChan c)" by auto
  have inv: "Inv L c s" unfolding assms(3) using assms(1) by (rule Inv_reach)
  have st: "step L W s i =
      Some ((goto s i Release)
              \<lparr>printed := printed s @ [ErrorFetching (pageURL (tasks s ! i))],
               fetched := fetched s @ [(pageURL (tasks s ! i), depth (tasks s ! i))]\<rparr>)"
    using assms(4,5,6) by (simp add: step_def Let_def)
  then have s1: "s1 = (goto s i Release)
              \<lparr>printed := printed s @ [ErrorFetching (pageURL (tasks s ! i))],
               fetched := fetched s @ [(pageURL (tasks s ! i), depth (tasks s ! i))]\<rparr>"
    by (simp add: assms(7) sched_step_def)
  have inv1: "Inv L c s1" using inv st s1 Inv_step by metis
  have a: "printed s1 = printed s @ [ErrorFetching (pageURL (tasks s ! i))]"
    "length (tasks s1) = length (tasks s)" "files s1 = files s" "crawler s1 = crawler s"
    by (simp_all add: s1)
  have i1: "i < length (tasks s1)" and p1: "pc (tasks s1 ! i) = Release"
    using assms(4) by (simp_all add: s1)
  then have w: "winding_down (tasks (run L W later s1) ! i)"
    using winding_down_run[of i s1 L W later] by (simp add: winding_down_def)
  from inv1 have "inv_sem s1" by (simp add: Inv_def)
  then have pos: "0 < chan_len (concurrencyChan (crawler s1))"
    using filter_member_pos[of i "tasks s1" holds_permit] i1 p1
    by (simp add: inv_sem_def holds_permit_def)
  define s2 where "s2 = (goto s1 i WgDone)
              \<lparr>crawler := (crawler s1)\<lparr>concurrencyChan := (concurrencyChan (crawler s1))
                 \<lparr>chan_len := chan_len (concurrencyChan (crawler s1)) - 1\<rparr>\<rparr>\<rparr>"
  have st2: "step L W s1 i = Some s2"
    using i1 p1 pos by (simp add: step_def Let_def s2_def)
  have p2: "i < length (tasks s2)" "pc (tasks s2 ! i) = WgDone" "files s2 = files s1"
    "length (tasks s2) = length (tasks s1)"
    using i1 by (simp_all add: s2_def)
  define s3 where "s3 = (goto s2 i Exited)\<lparr>crawler := (crawler s2)\<lparr>wg := wg (crawler s2) - 1\<rparr>\<rparr>"
  have st3: "step L W s2 i = Some s3"
    using p2(1,2) by (simp add: step_def Let_def s3_def)
  have p3: "pc (tasks s3 ! i) = Exited" "files s3 = files s2" "length (tasks s3) = length (tasks s2)"
    using p2(1) by (simp_all add: s3_def)
  have r: "run L W [i, i] s1 = s3"
    by (simp add: run_def sched_step_def st2 st3)
  have b: "pc (tasks (run L W [i, i] s1) ! i) = Exited"
    "length (tasks (run L W [i, i] s1)) = length (tasks s)"
    "files (run L W [i, i] s1) = files s"
    using p2 p3 a by (simp_all add: r)
  have sib: "tasks s1 ! j = tasks s ! j \<and>
            map_option (on_other s j) (step L W s1 j) = map_option (on_other s j) (step L W s j)"
    if "j < length (tasks s)" "j \<noteq> i" for j
  proof
    show t: "tasks s1 ! j = tasks s ! j" using that by (simp add: s1)
    show "map_option (on_other s j) (step L W s1 j) = map_option (on_other s j) (step L W s j)"
      using that(1) a(2) t a(4) a(3) by (rule step_frame)
  qed
  from Crawl_first_finishes[OF inv1, of W] obtain n s' where
    f: "Crawl_first L W n s1 = Some s'" "Inv L c s'" "enabled L W s' = []"
    by blast
  from f(2) have "inv_wg s'" by (simp add: Inv_def)
  with quiescent_all_exited[OF f(2) cap f(3)]
  have "wg (crawler s') = 0 \<and> (\<forall>k < length (tasks s'). pc (tasks s' ! k) = Exited)"
    by (simp add: all_exited_wg)
  with f(1) have fin: "\<exists>n s'. Crawl_first L W n s1 = Some s' \<and> wg (crawler s') = 0 \<and>
                  (\<forall>k < length (tasks s'). pc (tasks s' ! k) = Exited)"
    by blast
  from a w b sib fin show ?thesis by blast
qed

theorem fetch_failure_contained_witness:
  "NewCrawler fanout_lib ''https://site.com/'' 2 3 = Inr (site_crawler 2 3) \<and>
   map (\<lambda>t. (pageURL t, pc t)) (tasks first_child_fetching) =
     [(''https://site.com/'', Exited), (''https://site.com/a'', Fetch), (''https://site.com'', Start)] \<and>
   http_Get fanout_lib site_web (pageURL (tasks first_child_fetching ! 1)) = None \<and>
   printed (sched_step fanout_lib site_web 1 first_child_fetching) =
     printed first_child_fetching @ [ErrorFetching (pageURL (tasks first_child_fetching ! 1))] \<and>
   printed (sched_step fanout_lib site_web 1 first_child_fetching) = [ErrorFetching ''https://site.com/a''] \<and>
   files (sched_step fanout_lib site_web 1 first_child_fetching) = files first_child_fetching \<and>
   map_option (\<lambda>s. map (\<lambda>t. (pageURL t, depth t, pc t)) (tasks s))
     (Crawl_first fanout_lib site_web 60 (sched_step fanout_lib site_web 1 first_child_fetching)) =
     Some [(''https://site.com/'', 0, Exited), (''https://site.com/a'', 1, Exited),
           (''https://site.com'', 1, Exited), (''https://site.com/a'', 2, Exited),
           (''https://site.com'', 2, Exited)]"
proof -
  have h: "NewCrawler fanout_lib ''https://site.com/'' 2 3 = Inr (site_crawler 2 3)"
    using NewCrawler_site(2)[of 3 2] by simp
  have s: "first_child_fetching =
     run fanout_lib site_web (replicate 16 0 @ replicate 6 1) (Crawl_init fanout_lib (site_crawler 2 3))"
    by (rule first_child_fetching_def)
  have v: "map (\<lambda>t. (pageURL t, pc t)) (tasks first_child_fetching) =
     [(''https://site.com/'', Exited), (''https://site.com/a'', Fetch), (''https://site.com'', Start)]"
    "http_Get fanout_lib site_web (pageURL (tasks first_child_fetching ! 1)) = None"
    "printed (sched_step fanout_lib site_web 1 first_child_fetching) = [ErrorFetching ''https://site.com/a'']"
    "map_option (\<lambda>s. map (\<lambda>t. (pageURL t, depth t, pc t)) (tasks s))
     (Crawl_first fanout_lib site_web 60 (sched_step fanout_lib site_web 1 first_child_fetching)) =
     Some [(''https://site.com/'', 0, Exited), (''https://site.com/a'', 1, Exited),
           (''https://site.com'', 1, Exited), (''https://site.com/a'', 2, Exited),
           (''https://site.com'', 2, Exited)]"
    by code_simp+
  have i: "1 < length (tasks first_child_fetching)" "pc (tasks first_child_fetching ! 1) = Fetch"
    by code_simp+
  from fetch_failure_contained[OF h _ s i v(2) refl, where later = "[]"] h v
  show ?thesis by simp
qed

section \<open>The name of the stored file\<close>

text \<open>
  C9. \<open>savePage\<close> stores the body under a name computed from the path of the fetched URL:
  every \<open>/\<close> becomes \<open>_\<close>, the empty path and the root path become \<open>index\<close>, the suffix is
  \<open>.html\<close>, and the directory is \<open>crawl_output\<close> joined with the host name of the seed. Under
  \<open>go_lib\<close>, \<open>https://site.com/foo/bar\<close> is stored as \<open>_foo_bar.html\<close> and \<open>https://site.com/\<close>
  as \<open>index.html\<close>, both in \<open>crawl_output/site.com\<close>.
\<close>

theorem savePage_file_name:
  "(NewCrawler L seed md mc = Inr c \<and> url_Parse L page = Some u \<longrightarrow>
     (let name =
        filepath_Join L
          [filepath_Join L [''crawl_output'', url_Hostname L (baseURL c)],
           (if Path u = [] \<or> Path u = ''/'' \<or> Path u = ''_'' then ''index''
            else map (\<lambda>x. if x = CHR ''/'' then CHR ''_'' else x) (Path u)) @ ''.html'']
      in savePage L W c page (Body bytes False) fs =
           (if write_fails W name then (Some WriteError, Body [] False, fs)
            else (None, Body [] False, fs(name \<mapsto> bytes))))) \<and>
   savePage go_lib disk_ok (site_crawler 2 10) ''https://site.com/foo/bar'' (Body ''<p>'' False) Map.empty =
     (None, Body [] False, [''crawl_output/site.com/_foo_bar.html'' \<mapsto> ''<p>'']) \<and>
   savePage go_lib disk_ok (site_crawler 2 10) ''https://site.com/'' (Body ''<p>'' False) Map.empty =
     (None, Body [] False, [''crawl_output/site.com/index.html'' \<mapsto> ''<p>''])"
proof (intro conjI impI)
  assume "NewCrawler L seed md mc = Inr c \<and> url_Parse L page = Some u"
  then have nc: "NewCrawler L seed md mc = Inr c" and u: "url_Parse L page = Some u" by simp_all
  from NewCrawler_Inr[OF nc]
  have od: "outputDirectory c = filepath_Join L [''crawl_output'', url_Hostname L (baseURL c)]"
    by auto
  show "let name =
        filepath_Join L
          [filepath_Join L [''crawl_output'', url_Hostname L (baseURL c)],
           (if Path u = [] \<or> Path u = ''/'' \<or> Path u = ''_'' then ''index''
            else map (\<lambda>x. if x = CHR ''/'' then CHR ''_'' else x) (Path u)) @ ''.html'']
      in savePage L W c page (Body bytes False) fs =
           (if write_fails W name then (Some WriteError, Body [] False, fs)
            else (None, Body [] False, fs(name \<mapsto> bytes)))"
    using u od by (simp add: savePage_def io_ReadAll_def filename_of_eq Let_def)
next
  show "savePage go_lib disk_ok (site_crawler 2 10) ''https://site.com/foo/bar'' (Body ''<p>'' False) Map.empty =
     (None, Body [] False, [''crawl_output/site.com/_foo_bar.html'' \<mapsto> ''<p>''])"
    by (simp add: go_eval savePage_def io_ReadAll_def filename_of_eq disk_ok_def site_crawler_def)
next
  show "savePage go_lib disk_ok (site_crawler 2 10) ''https://site.com/'' (Body ''<p>'' False) Map.empty =
     (None, Body [] False, [''crawl_output/site.com/index.html'' \<mapsto> ''<p>''])"
    by (simp add: go_eval savePage_def io_ReadAll_def filename_of_eq disk_ok_def site_crawler_def)
qed

theorem savePage_file_name_witness:
  "NewCrawler go_lib ''https://site.com/'' 2 10 = Inr (site_crawler 2 10) \<and>
   url_Parse go_lib ''https://site.com/a/b'' =
     Some \<lparr>Scheme = ''https'', Opaque = [], Host = ''site.com'', Path = ''/a/b'',
           OmitHost = False, ForceQuery = False, RawQuery = [], Fragment = []\<rparr> \<and>
   savePage go_lib disk_ok (site_crawler 2 10) ''https://site.com/a/b'' (Body ''x'' False) Map.empty =
     (None, Body [] False, [''crawl_output/site.com/_a_b.html'' \<mapsto> ''x''])"
  using savePage_file_name[of go_lib "''https://site.com/''" 2 10 "site_crawler 2 10"
      "''https://site.com/a/b''"
      "\<lparr>Scheme = ''https'', Opaque = [], Host = ''site.com'', Path = ''/a/b'',
        OmitHost = False, ForceQuery = False, RawQuery = [], Fragment = []\<rparr>"
      disk_ok "''x''" Map.empty]
  by (simp add: go_eval disk_ok_def site_crawler_def)

section \<open>The key of the seed\<close>

text \<open>
  C10, as amended. The seed is crawled under the string form of its parse
  (\<open>c.baseURL.String()\<close>, which need not be the string that was given), with its trailing
  slash if it has one: the first four actions of the seed's goroutine enter that key, and
  no other, into the visited map, and three more fetch it. In every state of every run the
  goroutine at depth 0 has that key and tests, inserts and fetches the key it has, while
  every link that \<open>extractLinks\<close> returns, every other goroutine, every other key of the
  visited map and every other URL fetched has lost its trailing slashes (a \<open>range\<close> loop
  visits keys of its map only). Hence a seed key that ends in \<open>/\<close> is never the key of a
  discovered link: the two are distinct keys of the visited map.
\<close>

theorem seed_key_keeps_slash:
  assumes "NewCrawler L seed md mc = Inr c"
    and "\<forall>ks. set (map_range L ks) \<subseteq> set ks"
    and "s = run L W sched (Crawl_init L c)"
    and "seedKey = url_String L (baseURL c)"
  shows "url_Parse L seed = Some (baseURL c) \<and>
         (0 \<le> md \<longrightarrow> visited (crawler (run L W [0, 0, 0, 0] (Crawl_init L c))) = [seedKey \<mapsto> True]) \<and>
         (0 \<le> md \<and> 0 < mc \<longrightarrow>
            fetched (run L W [0, 0, 0, 0, 0, 0, 0] (Crawl_init L c)) = [(seedKey, 0)]) \<and>
         (\<forall>j < length (tasks s).
            (depth (tasks s ! j) = 0 \<longrightarrow> pageURL (tasks s ! j) = seedKey) \<and>
            (depth (tasks s ! j) \<noteq> 0 \<longrightarrow>
               pageURL (tasks s ! j) = [] \<or> last (pageURL (tasks s ! j)) \<noteq> CHR ''/'') \<and>
            (pc (tasks s ! j) = Check \<longrightarrow>
               step L W s j =
                 Some ((goto s j (if visited (crawler s) (pageURL (tasks s ! j)) = Some True
                                  then UnlockSkip else Insert))
                         \<lparr>claims := claims s @
                            [(pageURL (tasks s ! j),
                              visited (crawler s) (pageURL (tasks s ! j)) \<noteq> Some True)]\<rparr>)) \<and>
            (pc (tasks s ! j) = Insert \<longrightarrow>
               step L W s j =
                 Some ((goto s j UnlockOk)
                         \<lparr>crawler := (crawler s)
                            \<lparr>visited := (visited (crawler s))(pageURL (tasks s ! j) \<mapsto> True)\<rparr>\<rparr>)) \<and>
            (pc (tasks s ! j) = Fetch \<longrightarrow>
               (\<exists>s'. step L W s j = Some s' \<and>
                     fetched s' = fetched s @ [(pageURL (tasks s ! j), depth (tasks s ! j))]))) \<and>
         (\<forall>u. visited (crawler s) u = Some True \<longrightarrow> u = seedKey \<or> u = [] \<or> last u \<noteq> CHR ''/'') \<and>
         (\<forall>(u, d) \<in> set (fetched s).
            if d = 0 then u = seedKey else u = [] \<or> last u \<noteq> CHR ''/'') \<and>
         (\<forall>k \<in> set (extractLinks L cr body page). k = [] \<or> last k \<noteq> CHR ''/'') \<and>
         (seedKey \<noteq> [] \<and> last seedKey = CHR ''/'' \<longrightarrow>
            seedKey \<notin> set (extractLinks L cr body page) \<and>
            (\<forall>j < length (tasks s). depth (tasks s ! j) \<noteq> 0 \<longrightarrow> pageURL (tasks s ! j) \<noteq> seedKey) \<and>
            (\<forall>(u, d) \<in> set (fetched s). d \<noteq> 0 \<longrightarrow> u \<noteq> seedKey))"
proof -
  from NewCrawler_Inr[OF assms(1)] have p: "url_Parse L seed = Some (baseURL c)" by auto
  have inv: "inv_keys seedKey s"
    unfolding assms(3,4) by (rule inv_keys_run[OF assms(2)]) (rule inv_keys_init[OF assms(1)])
  have v: "visited (crawler (run L W [0, 0, 0, 0] (Crawl_init L c))) = [seedKey \<mapsto> True]"
    if "0 \<le> md"
    using seed_enters_visited[OF assms(1) that, of W] by (simp add: assms(4))
  have f: "fetched (run L W [0, 0, 0, 0, 0, 0, 0] (Crawl_init L c)) = [(seedKey, 0)]"
    if "0 \<le> md \<and> 0 < mc"
    using seed_is_fetched[OF assms(1), of W] that by (simp add: assms(4))
  have t: "(depth (tasks s ! j) = 0 \<longrightarrow> pageURL (tasks s ! j) = seedKey) \<and>
            (depth (tasks s ! j) \<noteq> 0 \<longrightarrow>
               pageURL (tasks s ! j) = [] \<or> last (pageURL (tasks s ! j)) \<noteq> CHR ''/'') \<and>
            (pc (tasks s ! j) = Check \<longrightarrow>
               step L W s j =
                 Some ((goto s j (if visited (crawler s) (pageURL (tasks s ! j)) = Some True
                                  then UnlockSkip else Insert))
                         \<lparr>claims := claims s @
                            [(pageURL (tasks s ! j),
                              visited (crawler s) (pageURL (tasks s ! j)) \<noteq> Some True)]\<rparr>)) \<and>
            (pc (tasks s ! j) = Insert \<longrightarrow>
               step L W s j =
                 Some ((goto s j UnlockOk)
                         \<lparr>crawler := (crawler s)
                            \<lparr>visited := (visited (crawler s))(pageURL (tasks s ! j) \<mapsto> True)\<rparr>\<rparr>)) \<and>
            (pc (tasks s ! j) = Fetch \<longrightarrow>
               (\<exists>s'. step L W s j = Some s' \<and>
                     fetched s' = fetched s @ [(pageURL (tasks s ! j), depth (tasks s ! j))]))"
    if j: "j < length (tasks s)" for j
  proof (intro conjI impI)
    assume "depth (tasks s ! j) = 0"
    with inv j show "pageURL (tasks s ! j) = seedKey" by (auto simp: inv_keys_def key_ok_def)
  next
    assume "depth (tasks s ! j) \<noteq> 0"
    with inv j show "pageURL (tasks s ! j) = [] \<or> last (pageURL (tasks s ! j)) \<noteq> CHR ''/''"
      by (auto simp: inv_keys_def key_ok_def trimmed_def)
  next
    assume "pc (tasks s ! j) = Check"
    with j show "step L W s j =
                 Some ((goto s j (if visited (crawler s) (pageURL (tasks s ! j)) = Some True
                                  then UnlockSkip else Insert))
                         \<lparr>claims := claims s @
                            [(pageURL (tasks s ! j),
                              visited (crawler s) (pageURL (tasks s ! j)) \<noteq> Some True)]\<rparr>)"
      by (simp add: step_def Let_def)
  next
    assume "pc (tasks s ! j) = Insert"
    with j show "step L W s j =
                 Some ((goto s j UnlockOk)
                         \<lparr>crawler := (crawler s)
                            \<lparr>visited := (visited (crawler s))(pageURL (tasks s ! j) \<mapsto> True)\<rparr>\<rparr>)"
      by (simp add: step_def Let_def)
  next
    assume "pc (tasks s ! j) = Fetch"
    with j show "\<exists>s'. step L W s j = Some s' \<and>
                     fetched s' = fetched s @ [(pageURL (tasks s ! j), depth (tasks s ! j))]"
      by (cases "http_Get L W (pageURL (tasks s ! j))") (simp_all add: step_def Let_def)
  qed
  have vis: "\<forall>u. visited (crawler s) u = Some True \<longrightarrow> u = seedKey \<or> u = [] \<or> last u \<noteq> CHR ''/''"
    using inv by (auto simp: inv_keys_def trimmed_def)
  have fet: "\<forall>(u, d) \<in> set (fetched s). if d = 0 then u = seedKey else u = [] \<or> last u \<noteq> CHR ''/''"
    using inv by (auto simp: inv_keys_def key_ok_def trimmed_def)
  have ext: "\<forall>k \<in> set (extractLinks L cr body page). k = [] \<or> last k \<noteq> CHR ''/''"
    using extractLinks_trimmed[OF assms(2), of cr body page] by (simp add: trimmed_def)
  have distinct_keys: "seedKey \<notin> set (extractLinks L cr body page) \<and>
            (\<forall>j < length (tasks s). depth (tasks s ! j) \<noteq> 0 \<longrightarrow> pageURL (tasks s ! j) \<noteq> seedKey) \<and>
            (\<forall>(u, d) \<in> set (fetched s). d \<noteq> 0 \<longrightarrow> u \<noteq> seedKey)"
    if "seedKey \<noteq> [] \<and> last seedKey = CHR ''/''"
  proof (intro conjI)
    show "seedKey \<notin> set (extractLinks L cr body page)" using ext that by blast
    show "\<forall>j < length (tasks s). depth (tasks s ! j) \<noteq> 0 \<longrightarrow> pageURL (tasks s ! j) \<noteq> seedKey"
      using t that by metis
    show "\<forall>(u, d) \<in> set (fetched s). d \<noteq> 0 \<longrightarrow> u \<noteq> seedKey"
      using fet that by fastforce
  qed
  from p v f t vis fet ext distinct_keys show ?thesis by blast
qed

text \<open>
  With a parser that does find the link to \<open>/\<close>, the page of the seed is in the visited map
  under \<open>https://site.com/\<close> and under \<open>https://site.com\<close>.
\<close>

theorem seed_key_keeps_slash_witness:
  "NewCrawler fanout_lib ''https://site.com/'' 2 3 = Inr (site_crawler 2 3) \<and>
   url_String fanout_lib (baseURL (site_crawler 2 3)) = ''https://site.com/'' \<and>
   visited (crawler (run fanout_lib site_web [0, 0, 0, 0] (Crawl_init fanout_lib (site_crawler 2 3)))) =
     [''https://site.com/'' \<mapsto> True] \<and>
   fetched (run fanout_lib site_web [0, 0, 0, 0, 0, 0, 0] (Crawl_init fanout_lib (site_crawler 2 3))) =
     [(''https://site.com/'', 0)] \<and>
   extractLinks fanout_lib (site_crawler 2 3) (Body [] False) ''https://site.com/'' =
     [''https://site.com/a'', ''https://site.com''] \<and>
   ''https://site.com/'' \<notin> set (extractLinks fanout_lib (site_crawler 2 3) (Body [] False) ''https://site.com/'') \<and>
   map pageURL (tasks (run fanout_lib site_web (each_in_turn 5) (Crawl_init fanout_lib (site_crawler 2 3)))) =
     [''https://site.com/'', ''https://site.com/a'', ''https://site.com'', ''https://site.com/a'',
      ''https://site.com''] \<and>
   fetched (run fanout_lib site_web (each_in_turn 5) (Crawl_init fanout_lib (site_crawler 2 3))) =
     [(''https://site.com/'', 0), (''https://site.com/a'', 1), (''https://site.com'', 1)] \<and>
   visited (crawler (run fanout_lib site_web (each_in_turn 5) (Crawl_init fanout_lib (site_crawler 2 3))))
     ''https://site.com/'' = Some True \<and>
   visited (crawler (run fanout_lib site_web (each_in_turn 5) (Crawl_init fanout_lib (site_crawler 2 3))))
     ''https://site.com'' = Some True"
proof -
  have h: "NewCrawler fanout_lib ''https://site.com/'' 2 3 = Inr (site_crawler 2 3)"
    using NewCrawler_site(2)[of 3 2] by simp
  have mr: "\<forall>ks. set (map_range fanout_lib ks) \<subseteq> set ks"
    by (simp add: fanout_lib_def go_lib_def)
  have k: "''https://site.com/'' = url_String fanout_lib (baseURL (site_crawler 2 3))"
    by code_simp
  have v: "extractLinks fanout_lib (site_crawler 2 3) (Body [] False) ''https://site.com/'' =
     [''https://site.com/a'', ''https://site.com'']"
    "map pageURL (tasks (run fanout_lib site_web (each_in_turn 5) (Crawl_init fanout_lib (site_crawler 2 3)))) =
     [''https://site.com/'', ''https://site.com/a'', ''https://site.com'', ''https://site.com/a'',
      ''https://site.com'']"
    "fetched (run fanout_lib site_web (each_in_turn 5) (Crawl_init fanout_lib (site_crawler 2 3))) =
     [(''https://site.com/'', 0), (''https://site.com/a'', 1), (''https://site.com'', 1)]"
    "visited (crawler (run fanout_lib site_web (each_in_turn 5) (Crawl_init fanout_lib (site_crawler 2 3))))
     ''https://site.com/'' = Some True"
    "visited (crawler (run fanout_lib site_web (each_in_turn 5) (Crawl_init fanout_lib (site_crawler 2 3))))
     ''https://site.com'' = Some True"
    by code_simp+
  from seed_key_keeps_slash[OF h mr refl k, where W = site_web and sched = "each_in_turn 5"
      and cr = "site_crawler 2 3" and body = "Body [] False" and page = "''https://site.com/''"]
    h v k[symmetric]
  show ?thesis by simp
qed

text \<open>
  The claim as it was stated fails twice. The seed \<open>HTTPS://site.com/\<close> is not crawled under
  its literal string: its key is \<open>https://site.com/\<close>. And the page of the seed
  \<open>https://site.com/\<close>, which links to \<open>/\<close>, is fetched once, not twice: the run ends after
  the seed's goroutine, because \<open>extractLinks\<close> is handed the body that \<open>savePage\<close> has
  read to its end (see C2).
\<close>

theorem seed_key_counterexample:
  \<open>NewCrawler go_lib ''HTTPS://site.com/'' 2 3 = Inr (site_crawler 2 3) \<and>
    map pageURL (tasks (Crawl_init go_lib (site_crawler 2 3))) = [''https://site.com/''] \<and>
    ''https://site.com/'' \<noteq> ''HTTPS://site.com/'' \<and>
    NewCrawler go_lib ''https://site.com/'' 2 3 = Inr (site_crawler 2 3) \<and>
    transport site_web ''https://site.com/'' = Some (Body ''<a href="/">home</a>'' False) \<and>
    map_option fetched (Crawl_first go_lib site_web 20 (Crawl_init go_lib (site_crawler 2 3))) =
      Some [(''https://site.com/'', 0)] \<and>
    map_option (map pc \<circ> tasks) (Crawl_first go_lib site_web 20 (Crawl_init go_lib (site_crawler 2 3))) =
      Some [Exited] \<and>
    map_option (enabled go_lib site_web)
      (Crawl_first go_lib site_web 20 (Crawl_init go_lib (site_crawler 2 3))) = Some []\<close>
proof (intro conjI)
  show "NewCrawler go_lib ''HTTPS://site.com/'' 2 3 = Inr (site_crawler 2 3)"
    by (simp add: go_eval site_crawler_def)
  show "NewCrawler go_lib ''https://site.com/'' 2 3 = Inr (site_crawler 2 3)"
    by (simp add: go_eval site_crawler_def)
  show \<open>transport site_web ''https://site.com/'' = Some (Body ''<a href="/">home</a>'' False)\<close>
    by (simp add: site_web_def)
  show "''https://site.com/'' \<noteq> ''HTTPS://site.com/''" by simp
qed code_simp+

end
